theory Spec2Isabelle
  imports Complex_Main "HOL-Library.Word"
begin

unbundle bit_operations_syntax

section \<open>Machine types and exceptions\<close>

type_synonym u64 = "64 word"
type_synonym u32 = "32 word"

text \<open>
  The two exception classes the sources throw, each with its message. A function that
  can throw returns \<open>(exn \<times> 's) + 's\<close>: \<open>Inr s\<close> when it returns with the object in
  state \<open>s\<close>, \<open>Inl (e, s)\<close> when it throws \<open>e\<close> and leaves the object in state \<open>s\<close>.
\<close>

datatype exn = invalid_argument string | primesieve_error string

definition UINT64_MAX :: u64 where
  "UINT64_MAX = 0xFFFFFFFFFFFFFFFF"

definition UINT32_MAX :: u32 where
  "UINT32_MAX = 0xFFFFFFFF"

section \<open>PrimeSieve.cpp: the facade object\<close>

subsection \<open>Flags\<close>

text \<open>
  Modelled from the spec: the flag constants are declared in PrimeSieve.h, which is not
  among the sources. The spec lists them and says that their bit positions are distinct;
  \<open>setFlags\<close> accepts the public ones below \<open>1 << 20\<close>, and the four callback flags are
  private. Each flag is one bit of an \<open>int\<close>; the positions below are in the order in
  which the sources name them.
\<close>

definition COUNT_PRIMES :: u32 where "COUNT_PRIMES = push_bit 0 1"
definition COUNT_TWINS :: u32 where "COUNT_TWINS = push_bit 1 1"
definition COUNT_TRIPLETS :: u32 where "COUNT_TRIPLETS = push_bit 2 1"
definition COUNT_QUADRUPLETS :: u32 where "COUNT_QUADRUPLETS = push_bit 3 1"
definition COUNT_QUINTUPLETS :: u32 where "COUNT_QUINTUPLETS = push_bit 4 1"
definition COUNT_SEXTUPLETS :: u32 where "COUNT_SEXTUPLETS = push_bit 5 1"
definition COUNT_SEPTUPLETS :: u32 where "COUNT_SEPTUPLETS = push_bit 6 1"
definition PRINT_PRIMES :: u32 where "PRINT_PRIMES = push_bit 7 1"
definition PRINT_TWINS :: u32 where "PRINT_TWINS = push_bit 8 1"
definition PRINT_TRIPLETS :: u32 where "PRINT_TRIPLETS = push_bit 9 1"
definition PRINT_QUADRUPLETS :: u32 where "PRINT_QUADRUPLETS = push_bit 10 1"
definition PRINT_QUINTUPLETS :: u32 where "PRINT_QUINTUPLETS = push_bit 11 1"
definition PRINT_SEXTUPLETS :: u32 where "PRINT_SEXTUPLETS = push_bit 12 1"
definition PRINT_SEPTUPLETS :: u32 where "PRINT_SEPTUPLETS = push_bit 13 1"
definition CALCULATE_STATUS :: u32 where "CALCULATE_STATUS = push_bit 14 1"
definition PRINT_STATUS :: u32 where "PRINT_STATUS = push_bit 15 1"
definition CALLBACK32_PRIMES :: u32 where "CALLBACK32_PRIMES = push_bit 20 1"
definition CALLBACK32_OOP_PRIMES :: u32 where "CALLBACK32_OOP_PRIMES = push_bit 21 1"
definition CALLBACK64_PRIMES :: u32 where "CALLBACK64_PRIMES = push_bit 22 1"
definition CALLBACK64_OOP_PRIMES :: u32 where "CALLBACK64_OOP_PRIMES = push_bit 23 1"

subsection \<open>The object\<close>

text \<open>
  A \<open>double\<close> of the source: a real number or NaN. The only doubles of the object are
  \<open>interval_\<close> and \<open>status_\<close>; the values the theorems below speak about (\<open>-1\<close>, \<open>0\<close>)
  are exact in IEEE arithmetic, and rounding is not modelled elsewhere. \<open>seconds_\<close>, the
  elapsed processor time, is left out of the model.
\<close>

datatype double = Dbl real | NaN

text \<open>
  What the program writes to \<open>std::cout\<close> and the callbacks it invokes, in order. A
  function pointer or an object pointer is \<open>None\<close> when it is \<open>NULL\<close>.
\<close>

type_synonym ptr = "nat option"

datatype event =
    PrintLine string
  | PrintStatus int
  | Callback32 ptr u32
  | Callback64 ptr u64
  | Callback32_OOP ptr u32 ptr
  | Callback64_OOP ptr u64 ptr

text \<open>
  The object \<open>parent_\<close> points to, reduced to the members \<open>updateStatus\<close> reads and
  writes there. A parent is the parallel driver's object, which is built by the default
  constructor; its own \<open>parent_\<close> is \<open>NULL\<close>.
\<close>

record Parent =
  p_flags :: u32
  p_sumSegments :: u64
  p_interval :: double
  p_status :: double

text \<open>
  The members of \<open>PrimeSieve\<close>; the member \<open>start_\<close> of the source is \<open>this_start\<close>
  here, and so on. \<open>counts_\<close> is the array \<open>counts_[7]\<close>, read at the
  indices \<open>0..6\<close>. \<open>cout\<close> is the trace of output and callback events; it belongs to the
  process, and is threaded through the object for convenience.
\<close>

record PrimeSieve =
  this_start :: u64
  this_stop :: u64
  this_flags :: u32
  this_preSieve :: int
  this_sieveSize :: int
  this_counts :: "nat \<Rightarrow> u64"
  this_sumSegments :: u64
  this_interval :: double
  this_status :: double
  this_parent :: "Parent option"
  this_callback32 :: ptr
  this_callback64 :: ptr
  this_callback32_OOP :: ptr
  this_callback64_OOP :: ptr
  this_obj :: ptr
  cout :: "event list"

type_synonym 'a result = "(exn \<times> PrimeSieve) + 'a"

subsection \<open>setStart, setStop\<close>

definition setStart :: "u64 \<Rightarrow> PrimeSieve \<Rightarrow> PrimeSieve result" where
  "setStart start s =
     (if start \<ge> UINT64_MAX - ucast UINT32_MAX * 10
      then Inl (invalid_argument ''START must be < (2^64-1) - (2^32-1) * 10'', s)
      else Inr (s\<lparr>this_start := start\<rparr>))"

definition setStop :: "u64 \<Rightarrow> PrimeSieve \<Rightarrow> PrimeSieve result" where
  "setStop stop s =
     (if stop \<ge> UINT64_MAX - ucast UINT32_MAX * 10
      then Inl (invalid_argument ''STOP must be < (2^64-1) - (2^32-1) * 10'', s)
      else Inr (s\<lparr>this_stop := stop\<rparr>))"


subsection \<open>Clamping and rounding\<close>

text \<open>\<open>getInBetween\<close> of pmath.hpp, at the type \<open>int\<close> of its callers here.\<close>

definition getInBetween :: "int \<Rightarrow> int \<Rightarrow> int \<Rightarrow> int" where
  "getInBetween mn x mx =
     (if x < mn then mn
      else if x > mx then mx
      else x)"

text \<open>
  Modelled from the spec: \<open>nextPowerOf2\<close> is defined in imath.h, which is not among the
  sources. The spec of \<open>set_sieve_size\<close> says "round up to next power of two": the result
  is the least power of two that is not below the argument, found here by doubling
  from \<open>2 ^ 0\<close>.
\<close>

function pow2_from :: "nat \<Rightarrow> int \<Rightarrow> int" where
  "pow2_from j x = (if x \<le> 2 ^ j then 2 ^ j else pow2_from (Suc j) x)"
  by pat_completeness auto
termination
  by (relation "measure (\<lambda>(j, x). nat (x - 2 ^ j))") auto

declare pow2_from.simps [simp del]

definition nextPowerOf2 :: "int \<Rightarrow> int" where
  "nextPowerOf2 x = pow2_from 0 x"

definition setPreSieve :: "int \<Rightarrow> PrimeSieve \<Rightarrow> PrimeSieve" where
  "setPreSieve preSieve s = s\<lparr>this_preSieve := getInBetween 13 preSieve 23\<rparr>"

definition setSieveSize :: "int \<Rightarrow> PrimeSieve \<Rightarrow> PrimeSieve" where
  "setSieveSize sieveSize s = s\<lparr>this_sieveSize := getInBetween 1 (nextPowerOf2 sieveSize) 4096\<rparr>"

definition getSieveSize :: "PrimeSieve \<Rightarrow> int" where
  "getSieveSize s = this_sieveSize s"

definition getPreSieve :: "PrimeSieve \<Rightarrow> int" where
  "getPreSieve s = this_preSieve s"

subsection \<open>Flag tests\<close>

text \<open>
  Modelled from the spec: \<open>isFlag\<close>, \<open>isCount\<close>, \<open>isPrint\<close> and \<open>isStatus\<close> are inline
  members declared in PrimeSieve.h (not among the sources). A flag is enabled when its
  bit is set; \<open>isCount i\<close> and \<open>isPrint i\<close> test the count and print flag of
  \<open>counts_[i]\<close>; \<open>isStatus\<close> holds when \<open>CALCULATE_STATUS\<close> or \<open>PRINT_STATUS\<close> is set.
\<close>

definition isFlag :: "u32 \<Rightarrow> PrimeSieve \<Rightarrow> bool" where
  "isFlag flag s = (this_flags s AND flag \<noteq> 0)"

definition isCount :: "nat \<Rightarrow> PrimeSieve \<Rightarrow> bool" where
  "isCount index s = isFlag (push_bit index COUNT_PRIMES) s"

definition isPrint :: "nat \<Rightarrow> PrimeSieve \<Rightarrow> bool" where
  "isPrint index s = isFlag (push_bit index PRINT_PRIMES) s"

definition isStatus :: "PrimeSieve \<Rightarrow> bool" where
  "isStatus s = (isFlag CALCULATE_STATUS s \<or> isFlag PRINT_STATUS s)"

text \<open>\<open>flags >= (1 << 20)\<close> compares two \<open>int\<close>s: a signed comparison.\<close>

definition setFlags :: "u32 \<Rightarrow> PrimeSieve \<Rightarrow> PrimeSieve result" where
  "setFlags flags s =
     (if push_bit 20 1 \<le>s flags then Inl (invalid_argument ''invalid flags'', s)
      else Inr (s\<lparr>this_flags := flags\<rparr>))"

definition addFlags :: "u32 \<Rightarrow> PrimeSieve \<Rightarrow> PrimeSieve result" where
  "addFlags flags s =
     (if push_bit 20 1 \<le>s flags then Inl (invalid_argument ''invalid flags'', s)
      else Inr (s\<lparr>this_flags := this_flags s OR flags\<rparr>))"

subsection \<open>Status\<close>

text \<open>
  \<open>static_cast<double>\<close> of a \<open>uint64_t\<close>, and \<open>static_cast<int>\<close> of a \<open>double\<close>, which
  truncates towards zero and is undefined for NaN (\<open>None\<close>).
\<close>

definition to_double :: "u64 \<Rightarrow> double" where
  "to_double w = Dbl (real (unat w))"

definition to_int :: "double \<Rightarrow> int option" where
  "to_int d = (case d of NaN \<Rightarrow> None
                | Dbl r \<Rightarrow> Some (if r < 0 then - \<lfloor>- r\<rfloor> else \<lfloor>r\<rfloor>))"

text \<open>
  \<open>std::min((sumSegments_ / interval_) * 100.0, 100.0)\<close>. With \<open>interval_ = 0\<close> the
  quotient is NaN for \<open>sumSegments_ = 0\<close>, and \<open>std::min\<close> returns its first argument;
  it is \<open>+\<infinity>\<close> otherwise, which \<open>std::min\<close> cuts to 100.
\<close>

definition percent :: "u64 \<Rightarrow> double \<Rightarrow> double" where
  "percent sumSegments interval =
     (case interval of
        NaN \<Rightarrow> NaN
      | Dbl i \<Rightarrow>
          if i = 0 then (if sumSegments = 0 then NaN else Dbl 100)
          else Dbl (min (real (unat sumSegments) / i * 100) 100))"

definition print_status :: "double \<Rightarrow> double \<Rightarrow> event list" where
  "print_status old new =
     (case (to_int old, to_int new) of
        (Some old', Some status) \<Rightarrow> if status > old' then [PrintStatus status] else []
      | _ \<Rightarrow> [])"

definition updateStatus :: "int \<Rightarrow> PrimeSieve \<Rightarrow> PrimeSieve" where
  "updateStatus segment s =
     (case this_parent s of
        Some p \<Rightarrow>
          (let sum' = p_sumSegments p + word_of_int segment;
               status' = percent sum' (p_interval p)
           in s\<lparr>this_parent := Some (p\<lparr>p_sumSegments := sum', p_status := status'\<rparr>),
                 cout := cout s @ (if p_flags p AND PRINT_STATUS \<noteq> 0
                                   then print_status (p_status p) status' else [])\<rparr>)
      | None \<Rightarrow>
          (let sum' = this_sumSegments s + word_of_int segment;
               status' = percent sum' (this_interval s)
           in s\<lparr>this_sumSegments := sum', this_status := status',
                 cout := cout s @ (if isFlag PRINT_STATUS s
                                   then print_status (this_status s) status' else [])\<rparr>))"

definition getStatus :: "PrimeSieve \<Rightarrow> double" where
  "getStatus s = this_status s"

subsection \<open>reset and the constructor\<close>

definition reset :: "PrimeSieve \<Rightarrow> PrimeSieve" where
  "reset s =
     (let s1 = s\<lparr>this_sumSegments := 0\<rparr>;
          s2 = fold (\<lambda>i t. t\<lparr>this_counts := (this_counts t)(i := 0)\<rparr>) [0..<7] s1;
          s3 = s2\<lparr>this_interval := to_double (this_stop s2 - this_start s2 + 1)\<rparr>;
          s4 = s3\<lparr>this_status := Dbl (- 1)\<rparr>
      in if isStatus s4 then updateStatus 0 s4 else s4)"

text \<open>
  The default constructor. \<open>config::PRESIEVE\<close> and \<open>config::SIEVESIZE\<close> are constants of
  config.h (not among the sources); the comments of \<open>setPreSieve\<close> and \<open>setSieveSize\<close>
  give the defaults 19 and 32. Members the constructor leaves uninitialised are given
  zero values here.
\<close>

definition PrimeSieve_new :: PrimeSieve where
  "PrimeSieve_new =
     reset (setSieveSize 32 (setPreSieve 19
       \<lparr>this_start = 0, this_stop = 0, this_flags = COUNT_PRIMES, this_preSieve = 0, this_sieveSize = 0,
        this_counts = (\<lambda>i. 0), this_sumSegments = 0, this_interval = Dbl 0, this_status = Dbl 0,
        this_parent = None, this_callback32 = None, this_callback64 = None,
        this_callback32_OOP = None, this_callback64_OOP = None, this_obj = None, cout = []\<rparr>))"

definition getPrimeCount :: "PrimeSieve \<Rightarrow> u64" where
  "getPrimeCount s = this_counts s 0"

subsection \<open>Small primes\<close>

text \<open>
  The table \<open>smallPrimes_\<close>. The struct \<open>SmallPrime\<close> is declared in PrimeSieve.h; its
  members are compared with \<open>start_\<close> and \<open>stop_\<close> as 64-bit unsigned numbers.
\<close>

record SmallPrime =
  sp_min :: u32
  sp_max :: u32
  sp_index :: nat
  sp_str :: string

definition smallPrimes :: "SmallPrime list" where
  "smallPrimes =
    [\<lparr>sp_min = 2, sp_max = 2, sp_index = 0, sp_str = ''2''\<rparr>,
     \<lparr>sp_min = 3, sp_max = 3, sp_index = 0, sp_str = ''3''\<rparr>,
     \<lparr>sp_min = 5, sp_max = 5, sp_index = 0, sp_str = ''5''\<rparr>,
     \<lparr>sp_min = 3, sp_max = 5, sp_index = 1, sp_str = ''(3, 5)''\<rparr>,
     \<lparr>sp_min = 5, sp_max = 7, sp_index = 1, sp_str = ''(5, 7)''\<rparr>,
     \<lparr>sp_min = 5, sp_max = 11, sp_index = 2, sp_str = ''(5, 7, 11)''\<rparr>,
     \<lparr>sp_min = 5, sp_max = 13, sp_index = 3, sp_str = ''(5, 7, 11, 13)''\<rparr>,
     \<lparr>sp_min = 5, sp_max = 17, sp_index = 4, sp_str = ''(5, 7, 11, 13, 17)''\<rparr>]"

text \<open>The lock taken by \<open>LockGuard\<close> has no effect on a single thread and is left out.\<close>

definition doSmallPrime :: "SmallPrime \<Rightarrow> PrimeSieve \<Rightarrow> PrimeSieve" where
  "doSmallPrime sp s =
     (if this_start s \<le> ucast (sp_min sp) \<and> ucast (sp_max sp) \<le> this_stop s then
        let calls =
              (if sp_index sp = 0 then
                 (if isFlag CALLBACK32_PRIMES s then [Callback32 (this_callback32 s) (sp_min sp)] else []) @
                 (if isFlag CALLBACK64_PRIMES s then [Callback64 (this_callback64 s) (ucast (sp_min sp))] else []) @
                 (if isFlag CALLBACK32_OOP_PRIMES s
                  then [Callback32_OOP (this_callback32_OOP s) (sp_min sp) (this_obj s)] else []) @
                 (if isFlag CALLBACK64_OOP_PRIMES s
                  then [Callback64_OOP (this_callback64_OOP s) (ucast (sp_min sp)) (this_obj s)] else [])
               else []);
            s1 = s\<lparr>cout := cout s @ calls\<rparr>;
            s2 = (if isCount (sp_index sp) s1
                  then s1\<lparr>this_counts := (this_counts s1)(sp_index sp := this_counts s1 (sp_index sp) + 1)\<rparr>
                  else s1)
        in (if isPrint (sp_index sp) s2 then s2\<lparr>cout := cout s2 @ [PrintLine (sp_str sp)]\<rparr> else s2)
      else s)"

subsection \<open>The segmented sieve\<close>

text \<open>
  Modelled from the spec: \<open>PrimeNumberFinder\<close> and \<open>PrimeNumberGenerator\<close> are not among
  the sources, so the block of \<open>sieve()\<close> that builds them, feeds the generator from the
  tiny sieve and calls \<open>finish()\<close> is represented by its effect on the counters. The
  finder consumes the sieved bitmap, whose bits stand for the numbers from 7 on within
  \<open>[start_, stop_]\<close>, and adds to \<open>counts_[k]\<close>, for every enabled kind \<open>k\<close>, the number
  \<open>found k start_ stop_\<close> of primes (\<open>k = 0\<close>) or prime tuplets it recognises there.
  What the finder prints, the callbacks it invokes and its status updates are not part
  of the model.
\<close>

definition PrimeNumberFinder :: "(nat \<Rightarrow> u64 \<Rightarrow> u64 \<Rightarrow> u64) \<Rightarrow> PrimeSieve \<Rightarrow> PrimeSieve" where
  "PrimeNumberFinder found s =
     s\<lparr>this_counts := (\<lambda>k. if k < 7 \<and> isCount k s
                         then this_counts s k + found k (this_start s) (this_stop s)
                         else this_counts s k)\<rparr>"

subsection \<open>sieve\<close>

definition sieve :: "(nat \<Rightarrow> u64 \<Rightarrow> u64 \<Rightarrow> u64) \<Rightarrow> PrimeSieve \<Rightarrow> PrimeSieve result" where
  "sieve found s =
     (if this_stop s < this_start s then Inl (invalid_argument ''STOP must be >= START'', s)
      else
        let s1 = reset s;
            s2 = (if this_start s1 \<le> 5 then fold doSmallPrime smallPrimes s1 else s1);
            s3 = (if this_stop s2 \<ge> 7 then PrimeNumberFinder found s2 else s2)
        in Inr (if isStatus s3 then updateStatus 10 s3 else s3))"

text \<open>Sequencing of calls that can throw: the first exception ends the sequence.\<close>

definition and_then :: "PrimeSieve result \<Rightarrow> (PrimeSieve \<Rightarrow> PrimeSieve result) \<Rightarrow> PrimeSieve result" where
  "and_then r f = (case r of Inl e \<Rightarrow> Inl e | Inr s \<Rightarrow> f s)"

text \<open>The convenience overloads \<open>sieve(start, stop)\<close> and \<open>sieve(start, stop, flags)\<close>.\<close>

definition sieve2 :: "(nat \<Rightarrow> u64 \<Rightarrow> u64 \<Rightarrow> u64) \<Rightarrow> u64 \<Rightarrow> u64 \<Rightarrow> PrimeSieve \<Rightarrow> PrimeSieve result" where
  "sieve2 found start stop s =
     and_then (and_then (setStart start s) (setStop stop)) (sieve found)"

definition sieve3 ::
  "(nat \<Rightarrow> u64 \<Rightarrow> u64 \<Rightarrow> u64) \<Rightarrow> u64 \<Rightarrow> u64 \<Rightarrow> u32 \<Rightarrow> PrimeSieve \<Rightarrow> PrimeSieve result" where
  "sieve3 found start stop flags s =
     and_then (and_then (and_then (setStart start s) (setStop stop)) (setFlags flags)) (sieve found)"

text \<open>\<open>getPrimeCount(start, stop)\<close>: the value returned, with the object's new state.\<close>

definition getPrimeCount2 ::
  "(nat \<Rightarrow> u64 \<Rightarrow> u64 \<Rightarrow> u64) \<Rightarrow> u64 \<Rightarrow> u64 \<Rightarrow> PrimeSieve \<Rightarrow> (u64 \<times> PrimeSieve) result" where
  "getPrimeCount2 found start stop s =
     (case sieve3 found start stop COUNT_PRIMES s of
        Inl e \<Rightarrow> Inl e
      | Inr s' \<Rightarrow> Inr (getPrimeCount s', s'))"

subsection \<open>generatePrimes\<close>





section \<open>pmath.hpp: integer logarithm and square root\<close>

text \<open>
  The templates are modelled at an unsigned integer type \<open>T\<close> of any width, \<open>'a word\<close>,
  with the arithmetic of \<open>T\<close> (every operation wraps around at the width), as C++ computes
  at \<open>uint32_t\<close> and \<open>uint64_t\<close>. A loop variable of type \<open>T\<close> is a word, and a shift by
  it is a shift by its value.
\<close>

definition numberOfBits :: "'a::len word \<Rightarrow> 'a word" where
  "numberOfBits x = of_nat (LENGTH('a))"

text \<open>The loop of \<open>ilog2\<close>, with the loop variable \<open>i\<close>, the shifted \<open>x\<close> and \<open>log2\<close>.\<close>

function ilog2_loop :: "'a::len word \<Rightarrow> 'a word \<Rightarrow> 'a word \<Rightarrow> 'a word" where
  "ilog2_loop i x log2 =
     (if i \<noteq> 0 then
        (if x \<ge> push_bit (unat i) 1
         then ilog2_loop (i div 2) (drop_bit (unat i) x) (log2 + i)
         else ilog2_loop (i div 2) x log2)
      else log2)"
  by pat_completeness auto
termination
proof (relation "measure (\<lambda>(i, x, log2). unat i)")
  show "wf (measure (\<lambda>(i :: 'a word, x :: 'a word, log2 :: 'a word). unat i))" by simp
next
  fix i x log2 :: "'a word"
  assume "i \<noteq> 0"
  then have "0 < unat i" by (simp add: unat_gt_0)
  then have "unat (i div 2) < unat i" by (simp add: unat_div)
  then show "((i div 2, drop_bit (unat i) x, log2 + i), i, x, log2)
      \<in> measure (\<lambda>(i, x, log2). unat i)" by simp
  from \<open>unat (i div 2) < unat i\<close>
  show "((i div 2, x, log2), i, x, log2) \<in> measure (\<lambda>(i, x, log2). unat i)" by simp
qed

declare ilog2_loop.simps [simp del]

definition ilog2 :: "'a::len word \<Rightarrow> 'a word" where
  "ilog2 x =
     (let bits = numberOfBits x
      in ilog2_loop (bits div 2) x 0)"

text \<open>
  The Newton iteration of \<open>isqrt\<close>: \<open>while (g1 < g0) { g0 = g1; g1 = (g0 + (x / g0)) >> 1; }\<close>.
  A division by zero is undefined behaviour in the source and \<open>None\<close> here.
\<close>

function isqrt_loop :: "'a::len word \<Rightarrow> 'a word \<Rightarrow> 'a word \<Rightarrow> 'a word option" where
  "isqrt_loop x g0 g1 =
     (if g1 < g0 then
        (if g1 = 0 then None
         else isqrt_loop x g1 (drop_bit 1 (g1 + x div g1)))
      else Some g0)"
  by pat_completeness auto
termination
  by (relation "measure (\<lambda>(x, g0, g1). unat g0)") (simp_all add: word_less_nat_alt)

declare isqrt_loop.simps [simp del]

definition isqrt :: "'a::len word \<Rightarrow> 'a word option" where
  "isqrt x =
     (if x \<le> 1 then Some x
      else
        let bits = numberOfBits x;
            s = bits div 2 - (bits - 1) div 2 + ilog2 (x - 1) div 2;
            g0 = push_bit (unat s) 1;
            g1 = drop_bit 1 (g0 + drop_bit (unat s) x)
        in isqrt_loop x g0 g1)"

section \<open>iterator.cpp: the size of a batch\<close>

text \<open>
  The members of \<open>primesieve::iterator\<close> (\<open>i_\<close> is \<open>it_i\<close> here, and so on). The class is
  declared in a header that is not among the sources; \<open>count_\<close> is taken to be a
  \<open>uint64_t\<close> like the other counters of the class.
\<close>

record iterator =
  it_i :: nat
  it_count :: u64
  it_start :: u64
  it_first :: bool
  it_adjust_skipto :: bool
  it_primes :: "u64 list"

text \<open>
  \<open>skipto\<close>. \<open>max_stop()\<close> is declared elsewhere and is a parameter; the message of the
  exception ends with its decimal value in the source. \<open>std::lower_bound\<close> on the sorted
  buffer gives the position of the first prime that is not below \<open>start\<close>.
\<close>

definition skipto :: "u64 \<Rightarrow> u64 \<Rightarrow> iterator \<Rightarrow> (exn \<times> iterator) + iterator" where
  "skipto max_stop start it =
     (let it1 = it\<lparr>it_first := True, it_adjust_skipto := False, it_i := 0, it_count := 0,
                   it_start := start\<rparr>
      in if it_start it1 > max_stop
         then Inl (primesieve_error ''start must be <= max_stop'', it1)
         else if it_primes it1 \<noteq> [] \<and> hd (it_primes it1) \<le> it_start it1
                 \<and> last (it_primes it1) \<ge> it_start it1
         then Inr (it1\<lparr>it_adjust_skipto := True,
                       it_i := length (takeWhile (\<lambda>p. p < it_start it1) (it_primes it1))\<rparr>)
         else Inr it1)"

text \<open>
  The constructor \<open>iterator(start)\<close>: \<open>skipto(start)\<close> on an object with an empty buffer.
\<close>

definition iterator_new :: "u64 \<Rightarrow> u64 \<Rightarrow> (exn \<times> iterator) + iterator" where
  "iterator_new max_stop start =
     skipto max_stop start
       \<lparr>it_i = 0, it_count = 0, it_start = 0, it_first = False, it_adjust_skipto = False,
        it_primes = []\<rparr>"

text \<open>
  \<open>get_interval_size\<close>. Its floating point expressions are parameters of the model:
  \<open>sqrtx_primes_of n\<close> stands for
  \<open>static_cast<uint64_t>(sqrtx / (std::log(sqrtx) - 1))\<close> and \<open>times_log primes n\<close> for
  \<open>static_cast<uint64_t>(primes * std::log(x))\<close>, where \<open>x = max(n, 10.0)\<close> and
  \<open>sqrtx = sqrt(x)\<close>. \<open>sizeof(uint64_t)\<close> is 8. The function returns the interval size
  and the iterator with its incremented call counter.
\<close>

definition KILOBYTE :: u64 where "KILOBYTE = push_bit 10 1"
definition MEGABYTE :: u64 where "MEGABYTE = push_bit 20 1"

definition get_interval_size ::
  "(u64 \<Rightarrow> u64) \<Rightarrow> (u64 \<Rightarrow> u64 \<Rightarrow> u64) \<Rightarrow> u64 \<Rightarrow> iterator \<Rightarrow> u64 \<times> iterator" where
  "get_interval_size sqrtx_primes_of times_log n it =
     (let it' = it\<lparr>it_count := it_count it + 1\<rparr>;
          sqrtx_primes = sqrtx_primes_of n;
          max_primes = (MEGABYTE * 512) div 8;
          primes = (if it_count it' < 10 then KILOBYTE * 32 else MEGABYTE * 4) div 8;
          primes' = min (max primes sqrtx_primes) max_primes
      in (times_log primes' n, it'))"

text \<open>A run of regenerations: one call of \<open>get_interval_size\<close> for each number of the list.\<close>

fun regenerations ::
  "(u64 \<Rightarrow> u64) \<Rightarrow> (u64 \<Rightarrow> u64 \<Rightarrow> u64) \<Rightarrow> u64 list \<Rightarrow> iterator \<Rightarrow> iterator" where
  "regenerations sqrtx_primes_of times_log [] it = it"
| "regenerations sqrtx_primes_of times_log (n # ns) it =
     regenerations sqrtx_primes_of times_log ns
       (snd (get_interval_size sqrtx_primes_of times_log n it))"

section \<open>cmdoptions.cpp: the count option\<close>

text \<open>
  A command-line option, and the part of \<open>CmdOptions\<close> (declared in cmdoptions.hpp, not
  among the sources) that the option handlers write. \<open>calculator::eval<int>\<close> is not among
  the sources either; it is the parameter \<open>eval\<close> of \<open>getValue\<close>.
\<close>

record Option =
  opt_argv :: string
  opt_str :: string
  opt_value :: string

record CmdOptions =
  co_flags :: u32
  co_quiet :: bool

definition getValue :: "(string \<Rightarrow> exn + int) \<Rightarrow> Option \<Rightarrow> exn + int" where
  "getValue eval opt =
     (if opt_value opt = [] then Inl (primesieve_error (''missing value for option '' @ opt_argv opt))
      else eval (opt_value opt))"

text \<open>
  The loop of \<open>optionCount\<close> over the decimal digits of \<open>n\<close>, lowest first. \<open>n\<close> is an
  \<open>int\<close>; the loop only divides it, so no overflow can occur, and for \<open>n > 0\<close> the
  operators \<open>%\<close> and \<open>/\<close> of the source agree with \<open>mod\<close> and \<open>div\<close>.
\<close>

function count_loop :: "string \<Rightarrow> int \<Rightarrow> u32 \<Rightarrow> exn + u32" where
  "count_loop argv n flags =
     (if n > 0 then
        (if n mod 10 = 1 then count_loop argv (n div 10) (flags OR COUNT_PRIMES)
         else if n mod 10 = 2 then count_loop argv (n div 10) (flags OR COUNT_TWINS)
         else if n mod 10 = 3 then count_loop argv (n div 10) (flags OR COUNT_TRIPLETS)
         else if n mod 10 = 4 then count_loop argv (n div 10) (flags OR COUNT_QUADRUPLETS)
         else if n mod 10 = 5 then count_loop argv (n div 10) (flags OR COUNT_QUINTUPLETS)
         else if n mod 10 = 6 then count_loop argv (n div 10) (flags OR COUNT_SEXTUPLETS)
         else Inl (primesieve_error (''invalid option '' @ argv)))
      else Inr flags)"
  by pat_completeness auto
termination
  by (relation "measure (\<lambda>(argv, n, flags). nat n)") auto

declare count_loop.simps [simp del]

definition optionCount :: "(string \<Rightarrow> exn + int) \<Rightarrow> Option \<Rightarrow> CmdOptions \<Rightarrow> exn + CmdOptions" where
  "optionCount eval opt opts =
     (let opt' = (if opt_value opt = [] then opt\<lparr>opt_value := ''1''\<rparr> else opt)
      in case getValue eval opt' of
           Inl e \<Rightarrow> Inl e
         | Inr n \<Rightarrow>
             (case count_loop (opt_argv opt') n (co_flags opts) of
                Inl e \<Rightarrow> Inl e
              | Inr flags \<Rightarrow> Inr (opts\<lparr>co_flags := flags\<rparr>)))"

text \<open>
  The decimal digits of a natural number, highest first, and the count flag that the
  spec assigns to the digit \<open>k\<close>.
\<close>

fun digits10 :: "nat \<Rightarrow> nat list" where
  "digits10 n = (if n < 10 then [n] else digits10 (n div 10) @ [n mod 10])"

declare digits10.simps [simp del]

definition count_flag :: "nat \<Rightarrow> u32" where
  "count_flag k = push_bit (k - 1) COUNT_PRIMES"

subsection \<open>Observations\<close>

text \<open>
  The configuration of an object, the observable counters, and the state in which a call
  leaves the object whether it returns or throws.
\<close>

definition config :: "PrimeSieve \<Rightarrow> u64 \<times> u64 \<times> u32 \<times> int \<times> int" where
  "config s = (this_start s, this_stop s, this_flags s, this_preSieve s, this_sieveSize s)"

definition same_counts :: "PrimeSieve \<Rightarrow> PrimeSieve \<Rightarrow> bool" where
  "same_counts s t = (list_all (\<lambda>i. this_counts s i = this_counts t i) [0..<7])"

definition state_of :: "PrimeSieve result \<Rightarrow> PrimeSieve" where
  "state_of r = (case r of Inl (e, s) \<Rightarrow> s | Inr s \<Rightarrow> s)"

subsection \<open>Primes\<close>

text \<open>
  The mathematical side of the counting claims: primality by trial division, the number
  of primes in \<open>[a, b]\<close>, and the prime counting function \<open>\<pi>\<close> on the integers.
\<close>

definition is_prime :: "nat \<Rightarrow> bool" where
  "is_prime n = (1 < n \<and> (\<forall>d \<in> {2..<n}. \<not> d dvd n))"

definition primes_in :: "nat \<Rightarrow> nat \<Rightarrow> nat" where
  "primes_in a b = length (filter is_prime [a..<Suc b])"

definition primepi :: "int \<Rightarrow> nat" where
  "primepi x = (if x < 0 then 0 else primes_in 0 (nat x))"

text \<open>
  Modelled from the spec: what the finder (not among the sources) counts. By the spec's
  wheel coverage property the set bits of the sieved bitmap are exactly the primes, and
  the finder counts the set bits; the bitmap covers the numbers from 7 on. So for
  \<open>k = 0\<close> it finds the primes \<open>p\<close> with \<open>max 7 start \<le> p \<le> stop\<close>. The numbers of
  tuplets it finds (\<open>k > 0\<close>) stay a parameter.
\<close>

definition primes_found :: "(nat \<Rightarrow> u64 \<Rightarrow> u64 \<Rightarrow> u64) \<Rightarrow> nat \<Rightarrow> u64 \<Rightarrow> u64 \<Rightarrow> u64" where
  "primes_found tuplets k start stop =
     (if k = 0 then of_nat (primes_in (max 7 (unat start)) (unat stop))
      else tuplets k start stop)"

section \<open>Properties\<close>

lemmas flag_defs =
  COUNT_PRIMES_def COUNT_TWINS_def COUNT_TRIPLETS_def COUNT_QUADRUPLETS_def
  COUNT_QUINTUPLETS_def COUNT_SEXTUPLETS_def COUNT_SEPTUPLETS_def
  PRINT_PRIMES_def PRINT_TWINS_def PRINT_TRIPLETS_def PRINT_QUADRUPLETS_def
  PRINT_QUINTUPLETS_def PRINT_SEXTUPLETS_def PRINT_SEPTUPLETS_def
  CALCULATE_STATUS_def PRINT_STATUS_def CALLBACK32_PRIMES_def
  CALLBACK32_OOP_PRIMES_def CALLBACK64_PRIMES_def CALLBACK64_OOP_PRIMES_def


subsection \<open>The ceiling of setStart and setStop\<close>

lemma ceiling_value:
  "unat (UINT64_MAX - ucast UINT32_MAX * 10 :: u64) = 2 ^ 64 - 1 - 10 * (2 ^ 32 - 1)"
  by (simp add: UINT64_MAX_def UINT32_MAX_def)

lemma ceiling_le_iff:
  "(UINT64_MAX - ucast UINT32_MAX * 10 \<le> (v :: u64)) = (2 ^ 64 - 1 - 10 * (2 ^ 32 - 1) \<le> unat v)"
  by (simp only: word_le_nat_alt ceiling_value)

subsection \<open>reset and the constructed object\<close>

lemma fold_upt_Suc: "fold f [0..<Suc n] s = f n (fold f [0..<n] s)"
  by simp

lemma zero_counts:
  "fold (\<lambda>i t. t\<lparr>this_counts := (this_counts t)(i := 0)\<rparr>) [0..<n] s
     = s\<lparr>this_counts := (\<lambda>k. if k < n then 0 else this_counts s k)\<rparr>"
proof (induction n)
  case 0
  show ?case by simp
next
  case (Suc n)
  show ?case
    unfolding fold_upt_Suc Suc
    apply simp
    apply (rule arg_cong [where f = "\<lambda>g. s\<lparr>this_counts := g\<rparr>"])
    apply (rule ext)
    apply (simp add: less_Suc_eq)
    done
qed

lemma reset_eq:
  "reset s =
     (let s4 = s\<lparr>this_sumSegments := 0,
                 this_counts := (\<lambda>k. if k < 7 then 0 else this_counts s k),
                 this_interval := to_double (this_stop s - this_start s + 1),
                 this_status := Dbl (- 1)\<rparr>
      in if isStatus s then updateStatus 0 s4 else s4)"
  by (simp add: reset_def zero_counts Let_def isStatus_def isFlag_def cong: if_cong)

lemma PrimeSieve_new_eq:
  "PrimeSieve_new =
     \<lparr>this_start = 0, this_stop = 0, this_flags = COUNT_PRIMES, this_preSieve = 19,
      this_sieveSize = 32, this_counts = (\<lambda>i. 0), this_sumSegments = 0,
      this_interval = Dbl 1, this_status = Dbl (- 1),
      this_parent = None, this_callback32 = None, this_callback64 = None,
      this_callback32_OOP = None, this_callback64_OOP = None, this_obj = None, cout = []\<rparr>"
  by (simp add: PrimeSieve_new_def reset_eq setSieveSize_def setPreSieve_def getInBetween_def
      nextPowerOf2_def pow2_from.simps isStatus_def isFlag_def flag_defs to_double_def fun_eq_iff)


subsection \<open>C2: the guard of setStart and setStop\<close>

text \<open>
  C2, as the spec states it, fails at the boundary: \<open>setStop\<close> throws at
  \<open>2^64 - 10 * (2^32 - 1) - 1\<close>, the value the claim says must succeed, and the stored
  stop number stays 0.
\<close>

theorem setStop_boundary_counterexample:
  "setStop (2 ^ 64 - 10 * (2 ^ 32 - 1) - 1) PrimeSieve_new
     = Inl (invalid_argument ''STOP must be < (2^64-1) - (2^32-1) * 10'', PrimeSieve_new) \<and>
   this_stop PrimeSieve_new = 0"
  by (simp add: setStop_def UINT64_MAX_def UINT32_MAX_def PrimeSieve_new_eq)


text \<open>
  C2, amended: for every 64-bit value \<open>v\<close>, \<open>setStop v\<close> and \<open>setStart v\<close> throw
  \<open>invalid_argument\<close> exactly when \<open>v \<ge> 2^64 - 1 - 10 * (2^32 - 1)\<close>, leaving the object
  unchanged; below that value they store \<open>v\<close> and change nothing else.
\<close>

theorem setStart_setStop_ceiling:
  "(2 ^ 64 - 1 - 10 * (2 ^ 32 - 1) \<le> unat v \<longrightarrow>
      setStop v s = Inl (invalid_argument ''STOP must be < (2^64-1) - (2^32-1) * 10'', s) \<and>
      setStart v s = Inl (invalid_argument ''START must be < (2^64-1) - (2^32-1) * 10'', s)) \<and>
   (unat v < 2 ^ 64 - 1 - 10 * (2 ^ 32 - 1) \<longrightarrow>
      setStop v s = Inr (s\<lparr>this_stop := v\<rparr>) \<and> setStart v s = Inr (s\<lparr>this_start := v\<rparr>))"
  unfolding setStop_def setStart_def ceiling_le_iff by auto

theorem setStart_setStop_ceiling_witness:
  "setStop (2 ^ 64 - 10 * (2 ^ 32 - 1) - 2) PrimeSieve_new
     = Inr (PrimeSieve_new\<lparr>this_stop := 2 ^ 64 - 10 * (2 ^ 32 - 1) - 2\<rparr>) \<and>
   setStart (2 ^ 64 - 10 * (2 ^ 32 - 1) - 2) PrimeSieve_new
     = Inr (PrimeSieve_new\<lparr>this_start := 2 ^ 64 - 10 * (2 ^ 32 - 1) - 2\<rparr>) \<and>
   isl (setStop (2 ^ 64 - 10 * (2 ^ 32 - 1) - 1) PrimeSieve_new) \<and>
   isl (setStart (2 ^ 64 - 10 * (2 ^ 32 - 1) - 1) PrimeSieve_new)"
  using setStart_setStop_ceiling [of "2 ^ 64 - 10 * (2 ^ 32 - 1) - 2" PrimeSieve_new]
    setStart_setStop_ceiling [of "2 ^ 64 - 10 * (2 ^ 32 - 1) - 1" PrimeSieve_new]
  by simp

subsection \<open>Frame lemmas of the facade\<close>

lemma same_counts_iff: "same_counts s t = (\<forall>i<7. this_counts s i = this_counts t i)"
  by (auto simp: same_counts_def list_all_iff)

lemma isFlag_cong: "this_flags s = this_flags t \<Longrightarrow> isFlag f s = isFlag f t"
  by (simp add: isFlag_def)

lemma config_updateStatus [simp]: "config (updateStatus n s) = config s"
  by (simp add: updateStatus_def config_def Let_def split: option.splits)

lemma counts_updateStatus [simp]: "this_counts (updateStatus n s) = this_counts s"
  by (simp add: updateStatus_def Let_def split: option.splits)

lemma config_reset [simp]: "config (reset s) = config s"
  by (simp add: reset_eq Let_def) (simp add: config_def)

lemma counts_reset: "i < 7 \<Longrightarrow> this_counts (reset s) i = 0"
  by (simp add: reset_eq Let_def)

lemma config_doSmallPrime [simp]: "config (doSmallPrime sp s) = config s"
  by (simp add: doSmallPrime_def config_def Let_def)

lemma config_fold_doSmallPrime [simp]: "config (fold doSmallPrime sps s) = config s"
  by (induction sps arbitrary: s) simp_all

lemma config_PrimeNumberFinder [simp]: "config (PrimeNumberFinder found s) = config s"
  by (simp add: PrimeNumberFinder_def config_def)

lemma config_flags: "config s = config t \<Longrightarrow> this_flags s = this_flags t"
  and config_start: "config s = config t \<Longrightarrow> this_start s = this_start t"
  and config_stop: "config s = config t \<Longrightarrow> this_stop s = this_stop t"
  by (simp_all add: config_def)

lemma isStatus_config: "config s = config t \<Longrightarrow> isStatus s = isStatus t"
  by (simp add: isStatus_def isFlag_def config_def)

lemma isCount_config: "config s = config t \<Longrightarrow> isCount k s = isCount k t"
  by (simp add: isCount_def isFlag_def config_def)

lemma sieve_config:
  assumes "sieve found s = Inr s'"
  shows "config s' = config s"
proof -
  from assms have "\<not> this_stop s < this_start s"
    by (auto simp: sieve_def split: if_splits)
  with assms show ?thesis
    by (auto simp: sieve_def Let_def split: if_splits)
qed

lemma same_counts_doSmallPrime:
  assumes "config s = config t" "same_counts s t"
  shows "same_counts (doSmallPrime sp s) (doSmallPrime sp t)"
proof -
  have f: "this_flags s = this_flags t" "this_start s = this_start t" "this_stop s = this_stop t"
    using assms(1) by (simp_all add: config_def)
  show ?thesis
    using assms(2) f
    by (simp add: doSmallPrime_def Let_def same_counts_iff isCount_def isPrint_def isFlag_def)
qed

lemma same_counts_fold:
  "config s = config t \<Longrightarrow> same_counts s t \<Longrightarrow>
     same_counts (fold doSmallPrime sps s) (fold doSmallPrime sps t)"
proof (induction sps arbitrary: s t)
  case Nil
  then show ?case by simp
next
  case (Cons sp sps)
  show ?case
    using Cons.prems by (simp add: Cons.IH same_counts_doSmallPrime)
qed

lemma same_counts_finder:
  assumes "config s = config t" "same_counts s t"
  shows "same_counts (PrimeNumberFinder found s) (PrimeNumberFinder found t)"
  using assms
  by (simp add: PrimeNumberFinder_def same_counts_iff isCount_def isFlag_def config_def)

lemma same_counts_reset:
  "same_counts (reset s) (reset t)"
  by (simp add: same_counts_iff counts_reset)

lemma sieve_counts_config:
  assumes c: "config s = config t" and s: "sieve found s = Inr s'" and t: "sieve found t = Inr t'"
  shows "same_counts s' t'"
proof -
  let ?s2 = "if this_start (reset s) \<le> 5 then fold doSmallPrime smallPrimes (reset s) else reset s"
  let ?t2 = "if this_start (reset t) \<le> 5 then fold doSmallPrime smallPrimes (reset t) else reset t"
  let ?s3 = "if this_stop ?s2 \<ge> 7 then PrimeNumberFinder found ?s2 else ?s2"
  let ?t3 = "if this_stop ?t2 \<ge> 7 then PrimeNumberFinder found ?t2 else ?t2"
  have cr: "config (reset s) = config (reset t)" using c by simp
  have c2: "config ?s2 = config ?t2" using c by simp
  have "same_counts ?s2 ?t2"
    using config_start [OF cr] same_counts_fold [OF cr same_counts_reset]
    by (simp add: same_counts_reset)
  then have sc3: "same_counts ?s3 ?t3"
    using config_stop [OF c2] same_counts_finder [OF c2] by simp
  have c3: "config ?s3 = config ?t3" using c by simp
  have s': "s' = (if isStatus ?s3 then updateStatus 10 ?s3 else ?s3)"
    using s by (simp add: sieve_def Let_def split: if_splits)
  have t': "t' = (if isStatus ?t3 then updateStatus 10 ?t3 else ?t3)"
    using t by (simp add: sieve_def Let_def split: if_splits)
  show ?thesis
    unfolding s' t' using sc3 isStatus_config [OF c3]
    by (simp add: same_counts_iff)
qed

subsection \<open>C6: sieve() run twice\<close>

text \<open>
  C6: when \<open>sieve()\<close> has returned and is called again on the same object, it returns
  again and leaves the seven counters as the first run left them (and the configuration
  as it was): each run starts from \<open>reset()\<close>, so counts are recomputed, not accumulated.
  The segmented sieve is a parameter: whatever number \<open>found k start stop\<close> it adds for an
  enabled kind \<open>k\<close>.
\<close>

theorem sieve_twice_same_counts:
  assumes "sieve found s = Inr s1"
  shows "\<exists>s2. sieve found s1 = Inr s2 \<and> same_counts s2 s1 \<and> config s2 = config s"
proof -
  have c: "config s1 = config s" by (rule sieve_config [OF assms])
  have "\<not> this_stop s < this_start s"
    using assms by (auto simp: sieve_def split: if_splits)
  then have "\<not> this_stop s1 < this_start s1"
    using config_start [OF c] config_stop [OF c] by simp
  then obtain s2 where s2: "sieve found s1 = Inr s2"
    by (auto simp: sieve_def Let_def)
  have "same_counts s2 s1" by (rule sieve_counts_config [OF c s2 assms])
  moreover have "config s2 = config s" using sieve_config [OF s2] c by simp
  ultimately show ?thesis using s2 by blast
qed

lemma one_and_pow2 [simp]: "((1 :: u32) AND 2 ^ x \<noteq> 0) = (x = 0)"
  by (cases x) (simp_all add: one_and_eq flip: even_iff_mod_2_eq_zero)

lemma sieve_example:
  "sieve (\<lambda>k a b. 1) (PrimeSieve_new\<lparr>this_stop := 10\<rparr>)
     = Inr (PrimeSieve_new\<lparr>this_stop := 10, this_counts := (\<lambda>i. 0)(0 := 4), this_interval := Dbl 11\<rparr>)"
  by (simp add: sieve_def reset_eq PrimeSieve_new_eq isStatus_def isFlag_def flag_defs
      smallPrimes_def doSmallPrime_def isCount_def isPrint_def PrimeNumberFinder_def
      to_double_def Let_def fun_eq_iff)

theorem sieve_twice_same_counts_witness:
  "\<exists>s1 s2. sieve (\<lambda>k a b. 1) (PrimeSieve_new\<lparr>this_stop := 10\<rparr>) = Inr s1 \<and>
     this_counts s1 0 = 4 \<and>
     sieve (\<lambda>k a b. 1) s1 = Inr s2 \<and> same_counts s2 s1 \<and>
     config s2 = config (PrimeSieve_new\<lparr>this_stop := 10\<rparr>)"
  using sieve_twice_same_counts [OF sieve_example] sieve_example by auto

subsection \<open>C3: the interval check of sieve()\<close>

text \<open>
  C3: \<open>sieve()\<close> throws \<open>invalid_argument\<close> when \<open>stop_ < start_\<close>, and then leaves the
  object as it was: no counter, no output and no callback event has changed. When
  \<open>start_ \<le> stop_\<close> it returns.
\<close>

theorem sieve_interval_check:
  "(this_stop s < this_start s \<longrightarrow>
      sieve found s = Inl (invalid_argument ''STOP must be >= START'', s)) \<and>
   (this_start s \<le> this_stop s \<longrightarrow> (\<exists>s'. sieve found s = Inr s'))"
  by (auto simp: sieve_def Let_def)

theorem sieve_interval_check_witness:
  "sieve (\<lambda>k a b. 1) (PrimeSieve_new\<lparr>this_start := 5, this_stop := 3\<rparr>)
     = Inl (invalid_argument ''STOP must be >= START'', PrimeSieve_new\<lparr>this_start := 5, this_stop := 3\<rparr>) \<and>
   (\<exists>s'. sieve (\<lambda>k a b. 1) (PrimeSieve_new\<lparr>this_start := 3, this_stop := 5\<rparr>) = Inr s')"
  using sieve_interval_check [of "PrimeSieve_new\<lparr>this_start := 5, this_stop := 3\<rparr>" "\<lambda>k a b. 1"]
    sieve_interval_check [of "PrimeSieve_new\<lparr>this_start := 3, this_stop := 5\<rparr>" "\<lambda>k a b. 1"]
  by (simp add: PrimeSieve_new_eq)

subsection \<open>C5: the object after reset()\<close>

lemma percent_zero:
  "percent 0 (to_double w) = (if w = 0 then NaN else Dbl 0)"
  by (simp add: percent_def to_double_def unsigned_eq_0_iff)

lemma status_reset:
  "getStatus (reset s) =
     (if isStatus s \<and> this_parent s = None
      then (if this_stop s - this_start s + 1 = 0 then NaN else Dbl 0)
      else Dbl (- 1))"
  by (simp add: getStatus_def reset_eq updateStatus_def Let_def percent_zero split: option.splits)

text \<open>
  C5, as stated, fails when a status flag is set: \<open>reset()\<close> then calls \<open>updateStatus(0)\<close>,
  which sets the status to 0 percent.
\<close>

theorem reset_status_counterexample:
  "setFlags CALCULATE_STATUS PrimeSieve_new = Inr (PrimeSieve_new\<lparr>this_flags := CALCULATE_STATUS\<rparr>) \<and>
   getStatus (reset (PrimeSieve_new\<lparr>this_flags := CALCULATE_STATUS\<rparr>)) = Dbl 0 \<and>
   getStatus (reset (PrimeSieve_new\<lparr>this_flags := CALCULATE_STATUS\<rparr>)) \<noteq> Dbl (- 1)"
  by (simp add: status_reset setFlags_def PrimeSieve_new_eq isStatus_def isFlag_def flag_defs
      word_sle_eq)

text \<open>
  C5, amended: after \<open>reset()\<close> the seven counters are zero. The status is \<open>-1\<close> when
  neither \<open>CALCULATE_STATUS\<close> nor \<open>PRINT_STATUS\<close> is set, and also when the object has a
  parent (the status update then goes to the parent). With a status flag set and no
  parent the status is 0 (and NaN in the one case \<open>start_ = stop_ + 1\<close>, where the
  interval has size 0 as a 64-bit number).
\<close>

theorem reset_counts_status:
  "list_all (\<lambda>i. this_counts (reset s) i = 0) [0..<7] \<and>
   ((\<not> isStatus s \<or> this_parent s \<noteq> None) \<longrightarrow> getStatus (reset s) = Dbl (- 1)) \<and>
   (isStatus s \<and> this_parent s = None \<and> this_start s \<noteq> this_stop s + 1 \<longrightarrow> getStatus (reset s) = Dbl 0) \<and>
   (isStatus s \<and> this_parent s = None \<and> this_start s = this_stop s + 1 \<longrightarrow> getStatus (reset s) = NaN)"
proof -
  have "list_all (\<lambda>i. this_counts (reset s) i = 0) [0..<7]"
    by (simp add: list_all_iff counts_reset)
  moreover have "(this_stop s - this_start s + 1 = 0) = (this_start s = this_stop s + 1)"
  proof -
    have "this_stop s - this_start s + 1 = (this_stop s + 1) - this_start s" by simp
    then show ?thesis by (auto simp only: right_minus_eq)
  qed
  ultimately show ?thesis
    by (auto simp: status_reset)
qed

theorem reset_counts_status_witness:
  "list_all (\<lambda>i. this_counts (reset (PrimeSieve_new\<lparr>this_counts := (\<lambda>i. 5)\<rparr>)) i = 0) [0..<7] \<and>
   getStatus (reset PrimeSieve_new) = Dbl (- 1) \<and>
   getStatus (reset (PrimeSieve_new\<lparr>this_flags := PRINT_STATUS\<rparr>)) = Dbl 0 \<and>
   getStatus (reset (PrimeSieve_new\<lparr>this_flags := PRINT_STATUS, this_start := 1\<rparr>)) = NaN"
  using reset_counts_status [of "PrimeSieve_new\<lparr>this_counts := (\<lambda>i. 5)\<rparr>"]
    reset_counts_status [of PrimeSieve_new]
    reset_counts_status [of "PrimeSieve_new\<lparr>this_flags := PRINT_STATUS\<rparr>"]
    reset_counts_status [of "PrimeSieve_new\<lparr>this_flags := PRINT_STATUS, this_start := 1\<rparr>"]
  by (simp add: PrimeSieve_new_eq isStatus_def isFlag_def flag_defs)

subsection \<open>C10: generatePrimes changes the configuration\<close>

lemma state_of_simps [simp]:
  "state_of (Inl (e, s)) = s" "state_of (Inr s) = s"
  by (simp_all add: state_of_def)




lemma sieve2_returns:
  assumes "unat a < 2 ^ 64 - 1 - 10 * (2 ^ 32 - 1)" "unat b < 2 ^ 64 - 1 - 10 * (2 ^ 32 - 1)" "a \<le> b"
  shows "\<exists>s'. sieve2 found a b s = Inr s'"
  using assms
  by (simp add: sieve2_def and_then_def setStart_def setStop_def ceiling_le_iff sieve_def Let_def)













subsection \<open>C4: setSieveSize\<close>

lemma pow2_from_char:
  "\<exists>m\<ge>j. pow2_from j x = 2 ^ m \<and> x \<le> 2 ^ m \<and> (m = j \<or> 2 ^ (m - 1) < x)"
proof (induction j x rule: pow2_from.induct)
  case (1 j x)
  show ?case
  proof (cases "x \<le> 2 ^ j")
    case True
    then show ?thesis by (subst pow2_from.simps) auto
  next
    case False
    from 1 [OF False] obtain m where m: "m \<ge> Suc j" "pow2_from (Suc j) x = 2 ^ m" "x \<le> 2 ^ m"
      "m = Suc j \<or> 2 ^ (m - 1) < x" by blast
    have "2 ^ (m - 1) < x"
      using m(4) False by auto
    with m False show ?thesis
      by (subst pow2_from.simps) (auto intro!: exI [of _ m])
  qed
qed

lemma nextPowerOf2_char:
  "\<exists>m. nextPowerOf2 x = 2 ^ m \<and> x \<le> 2 ^ m \<and> (\<forall>i. x \<le> 2 ^ i \<longrightarrow> (2::int) ^ m \<le> 2 ^ i)"
proof -
  from pow2_from_char [of 0 x] obtain m where
    m: "nextPowerOf2 x = 2 ^ m" "x \<le> 2 ^ m" "m = 0 \<or> 2 ^ (m - 1) < x"
    by (auto simp: nextPowerOf2_def)
  have "(2::int) ^ m \<le> 2 ^ i" if "x \<le> 2 ^ i" for i
  proof (cases "m = 0")
    case True
    then show ?thesis by simp
  next
    case False
    from m(3) False have "2 ^ (m - 1) < x" by blast
    with that have "(2::int) ^ (m - 1) < 2 ^ i" by linarith
    then have "m - 1 < i" by (simp only: power_strict_increasing_iff one_less_numeral_iff semiring_norm)
    with False have "m \<le> i" by simp
    then show ?thesis by simp
  qed
  with m show ?thesis by blast
qed

text \<open>
  C4: after \<open>setSieveSize k\<close> the stored sieve size is a power of two between 1 and 4096,
  for every \<open>k\<close>; for \<open>1 \<le> k \<le> 4096\<close> it is the least power of two that is not below
  \<open>k\<close>. (\<open>nextPowerOf2\<close> is modelled from the spec.)
\<close>

theorem setSieveSize_power_of_two:
  "(\<exists>m. getSieveSize (setSieveSize k s) = 2 ^ m) \<and>
   1 \<le> getSieveSize (setSieveSize k s) \<and> getSieveSize (setSieveSize k s) \<le> 4096 \<and>
   (1 \<le> k \<and> k \<le> 4096 \<longrightarrow>
      k \<le> getSieveSize (setSieveSize k s) \<and>
      (\<forall>i. k \<le> 2 ^ i \<longrightarrow> getSieveSize (setSieveSize k s) \<le> 2 ^ i))"
proof -
  from nextPowerOf2_char [of k] obtain m where
    m: "nextPowerOf2 k = 2 ^ m" "k \<le> 2 ^ m" "\<forall>i. k \<le> 2 ^ i \<longrightarrow> (2::int) ^ m \<le> 2 ^ i"
    by blast
  have "(1::int) \<le> 2 ^ m" by simp
  then have one: "\<not> (2::int) ^ m < 1" by linarith
  have g: "getSieveSize (setSieveSize k s) = (if (2::int) ^ m > 4096 then 4096 else 2 ^ m)"
    using one by (simp add: getSieveSize_def setSieveSize_def getInBetween_def m(1))
  have "\<exists>n. getSieveSize (setSieveSize k s) = 2 ^ n"
  proof (cases "(2::int) ^ m > 4096")
    case True
    then have "getSieveSize (setSieveSize k s) = 2 ^ 12" by (simp add: g)
    then show ?thesis ..
  next
    case False
    then have "getSieveSize (setSieveSize k s) = 2 ^ m" by (simp add: g)
    then show ?thesis ..
  qed
  moreover have "1 \<le> getSieveSize (setSieveSize k s) \<and> getSieveSize (setSieveSize k s) \<le> 4096"
    unfolding g using one by auto
  moreover have "k \<le> getSieveSize (setSieveSize k s) \<and>
      (\<forall>i. k \<le> 2 ^ i \<longrightarrow> getSieveSize (setSieveSize k s) \<le> 2 ^ i)" if "k \<le> 4096"
  proof -
    from that have "k \<le> 2 ^ 12" by simp
    with m(3) have "(2::int) ^ m \<le> 2 ^ 12" by blast
    then have "\<not> (2::int) ^ m > 4096" by simp
    then show ?thesis unfolding g using m by simp
  qed
  ultimately show ?thesis by blast
qed

lemma nextPowerOf2_examples:
  "nextPowerOf2 33 = 64" "nextPowerOf2 (- 5) = 1" "nextPowerOf2 5000 = 8192"
  by (simp_all add: nextPowerOf2_def pow2_from.simps)

theorem setSieveSize_power_of_two_witness:
  "getSieveSize (setSieveSize 33 PrimeSieve_new) = 2 ^ 6 \<and>
   (33::int) \<le> 2 ^ 6 \<and> \<not> (33::int) \<le> 2 ^ 5 \<and>
   getSieveSize (setSieveSize (- 5) PrimeSieve_new) = 1 \<and>
   getSieveSize (setSieveSize 5000 PrimeSieve_new) = 4096"
  using setSieveSize_power_of_two [of 33 PrimeSieve_new]
  by (simp add: getSieveSize_def setSieveSize_def getInBetween_def nextPowerOf2_examples)

subsection \<open>C1: the prime count\<close>

lemma small_primes:
  "is_prime 2" "is_prime 3" "is_prime 5" "\<not> is_prime 0" "\<not> is_prime 1" "\<not> is_prime 4" "\<not> is_prime 6"
  "\<not> is_prime (Suc 0)"
  by code_simp+

lemma is_prime_below_7: "p < 7 \<Longrightarrow> is_prime p = (p = 2 \<or> p = 3 \<or> p = 5)"
proof -
  assume "p < 7"
  then have "p = 0 \<or> p = 1 \<or> p = 2 \<or> p = 3 \<or> p = 4 \<or> p = 5 \<or> p = 6" by arith
  then show ?thesis by (elim disjE) (simp_all add: small_primes)
qed

lemma primes_in_card: "primes_in a b = card {p. is_prime p \<and> a \<le> p \<and> p \<le> b}"
proof -
  have "{p. is_prime p \<and> a \<le> p \<and> p \<le> b} = {x. is_prime x} \<inter> set [a..<Suc b]"
    by auto
  then show ?thesis
    by (simp only: primes_in_def distinct_length_filter [OF distinct_upt])
qed


lemma primes_in_le: "primes_in a b \<le> b"
proof -
  have "{p. is_prime p \<and> a \<le> p \<and> p \<le> b} \<subseteq> {1..b}"
    by (auto simp: is_prime_def)
  then have "card {p. is_prime p \<and> a \<le> p \<and> p \<le> b} \<le> card {1..b}"
    by (intro card_mono) simp_all
  then show ?thesis by (simp add: primes_in_card)
qed

lemma primes_in_split7:
  "primes_in a b =
     length (filter (\<lambda>p. a \<le> p \<and> p \<le> b) [2, 3, 5]) + primes_in (max 7 a) b"
proof -
  let ?S1 = "set (filter (\<lambda>p. a \<le> p \<and> p \<le> b) [2, 3, 5])"
  let ?S2 = "{p. is_prime p \<and> max 7 a \<le> p \<and> p \<le> b}"
  have "{p. is_prime p \<and> a \<le> p \<and> p \<le> b} = ?S1 \<union> ?S2"
  proof (rule set_eqI)
    fix p
    show "p \<in> {p. is_prime p \<and> a \<le> p \<and> p \<le> b} \<longleftrightarrow> p \<in> ?S1 \<union> ?S2"
    proof (cases "p < 7")
      case True
      then show ?thesis by (auto simp: is_prime_below_7)
    next
      case False
      then show ?thesis by auto
    qed
  qed
  moreover have "?S1 \<inter> ?S2 = {}" by auto
  moreover have "finite ?S1" by simp
  moreover have "finite ?S2" by simp
  ultimately have "primes_in a b = card ?S1 + card ?S2"
    by (simp add: primes_in_card card_Un_disjoint)
  moreover have "card ?S1 = length (filter (\<lambda>p. a \<le> p \<and> p \<le> b) [2, 3, 5])"
    by (rule distinct_card) simp
  ultimately show ?thesis by (simp add: primes_in_card)
qed

lemma primes_in_append:
  assumes "a \<le> Suc b"
  shows "primes_in 0 b = (if a = 0 then 0 else primes_in 0 (a - 1)) + primes_in a b"
proof (cases a)
  case 0
  then show ?thesis by simp
next
  case (Suc n)
  have "[0..<Suc b] = [0..<Suc n] @ [Suc n..<Suc b]"
    using assms Suc upt_add_eq_append [of 0 "Suc n" "Suc b - Suc n"] by simp
  then show ?thesis by (simp add: primes_in_def Suc)
qed

lemma primepi_diff:
  assumes "a \<le> b"
  shows "int (primes_in (unat a) (unat b)) = int (primepi (uint b)) - int (primepi (uint a - 1))"
proof -
  have le: "unat a \<le> Suc (unat b)" using assms by (simp add: word_le_nat_alt)
  have 1: "primepi (uint b) = primes_in 0 (unat b)"
    by (simp add: primepi_def)
  have 2: "primepi (uint a - 1) = (if unat a = 0 then 0 else primes_in 0 (unat a - 1))"
  proof (cases "unat a = 0")
    case True
    then have "a = 0" by (simp only: unat_0_iff)
    then show ?thesis by (simp add: primepi_def)
  next
    case False
    have u: "uint a = int (unat a)" by simp
    have "nat (uint a - 1) = unat a - 1" "\<not> uint a - 1 < 0"
      unfolding u using False by linarith+
    with False show ?thesis by (simp add: primepi_def)
  qed
  show ?thesis
    unfolding 1 2 using primes_in_append [OF le] by simp
qed

lemma frame_doSmallPrime [simp]:
  "this_start (doSmallPrime sp s) = this_start s"
  "this_stop (doSmallPrime sp s) = this_stop s"
  "this_flags (doSmallPrime sp s) = this_flags s"
  using config_doSmallPrime [of sp s] by (simp_all add: config_def)

lemma isCount_doSmallPrime [simp]: "isCount k (doSmallPrime sp s) = isCount k s"
  by (simp add: isCount_def isFlag_def)

lemma counts0_doSmallPrime:
  "this_counts (doSmallPrime sp s) 0 =
     (if sp_index sp = 0 \<and> this_start s \<le> ucast (sp_min sp) \<and> ucast (sp_max sp) \<le> this_stop s
         \<and> isCount 0 s
      then this_counts s 0 + 1 else this_counts s 0)"
  by (simp add: doSmallPrime_def Let_def isCount_def isPrint_def isFlag_def)

lemma counts0_smallPrimes:
  "this_counts (fold doSmallPrime smallPrimes s) 0 =
     this_counts s 0 +
     (if isCount 0 s
      then (if this_start s \<le> 2 \<and> 2 \<le> this_stop s then 1 else 0) +
           (if this_start s \<le> 3 \<and> 3 \<le> this_stop s then 1 else 0) +
           (if this_start s \<le> 5 \<and> 5 \<le> this_stop s then 1 else 0)
      else 0)"
  by (simp add: smallPrimes_def counts0_doSmallPrime)

lemma indicator_unat:
  "unat (if (a::u64) \<le> p \<and> p \<le> b then 1 else 0 :: u64)
     = (if unat a \<le> unat p \<and> unat p \<le> unat b then 1 else 0)"
  by (simp add: word_le_nat_alt)

lemma sieve_counts0:
  assumes "isCount 0 s" "this_start s \<le> this_stop s"
  shows "\<exists>s'. sieve (primes_found t) s = Inr s' \<and>
     this_counts s' 0 =
       (if this_start s \<le> 2 \<and> 2 \<le> this_stop s then 1 else 0) +
       (if this_start s \<le> 3 \<and> 3 \<le> this_stop s then 1 else 0) +
       (if this_start s \<le> 5 \<and> 5 \<le> this_stop s then 1 else 0) +
       of_nat (primes_in (max 7 (unat (this_start s))) (unat (this_stop s)))"
proof -
  have c: "isCount 0 (reset s)"
    using assms(1) isCount_config [OF config_reset] by simp
  have st: "this_start (reset s) = this_start s" "this_stop (reset s) = this_stop s"
    using config_reset [of s] by (simp_all add: config_def)
  let ?s2 = "if this_start (reset s) \<le> 5 then fold doSmallPrime smallPrimes (reset s) else reset s"
  let ?s3 = "if this_stop ?s2 \<ge> 7 then PrimeNumberFinder (primes_found t) ?s2 else ?s2"
  let ?s' = "if isStatus ?s3 then updateStatus 10 ?s3 else ?s3"
  let ?small = "(if this_start s \<le> 2 \<and> 2 \<le> this_stop s then 1 else 0) +
       (if this_start s \<le> 3 \<and> 3 \<le> this_stop s then 1 else 0) +
       (if this_start s \<le> 5 \<and> 5 \<le> this_stop s then 1 else (0::u64))"
  have r: "sieve (primes_found t) s = Inr ?s'"
    using assms(2) by (simp add: sieve_def Let_def)
  have c2: "config ?s2 = config s" by simp
  have st2: "this_start ?s2 = this_start s" "this_stop ?s2 = this_stop s"
    using c2 by (simp_all add: config_def del: config_reset config_fold_doSmallPrime)
  have ic2: "isCount 0 ?s2" using isCount_config [OF c2] assms(1) by simp
  have small0: "?small = 0" if "\<not> this_start s \<le> 5"
    using that by (simp add: word_le_nat_alt)
  have k2: "this_counts ?s2 0 = ?small"
  proof (cases "this_start s \<le> 5")
    case True
    then show ?thesis by (simp add: st counts0_smallPrimes c counts_reset)
  next
    case False
    then show ?thesis using small0 by (simp add: st counts_reset)
  qed
  have big0: "primes_in (max 7 (unat (this_start s))) (unat (this_stop s)) = 0"
    if "\<not> 7 \<le> this_stop s"
    using that by (simp add: word_le_nat_alt primes_in_def)
  have k3: "this_counts ?s3 0 = ?small + of_nat (primes_in (max 7 (unat (this_start s))) (unat (this_stop s)))"
  proof (cases "7 \<le> this_stop s")
    case True
    have "this_counts (PrimeNumberFinder (primes_found t) ?s2) 0
        = this_counts ?s2 0 + primes_found t 0 (this_start ?s2) (this_stop ?s2)"
      using ic2 by (simp only: PrimeNumberFinder_def PrimeSieve.simps) simp
    then show ?thesis
      using True by (simp only: st2 k2 if_True primes_found_def) simp
  next
    case False
    then show ?thesis
      using big0 by (simp only: st2 k2 if_False) simp
  qed
  have "this_counts ?s' 0 = this_counts ?s3 0" by simp
  with k3 r show ?thesis by (metis (no_types, lifting))
qed


lemma small_as_nat:
  "(if (a::u64) \<le> 2 \<and> 2 \<le> (b::u64) then 1 else 0) +
   (if a \<le> 3 \<and> 3 \<le> b then 1 else 0) +
   (if a \<le> 5 \<and> 5 \<le> b then 1 else (0::u64))
     = of_nat (length (filter (\<lambda>p. unat a \<le> p \<and> p \<le> unat b) [2, 3, 5]))"
  by (simp add: word_le_nat_alt)

lemma small_length_le: "length (filter (\<lambda>p. (a::nat) \<le> p \<and> p \<le> b) [2, 3, 5]) \<le> 3"
  by simp

lemma unat_of_nat_primes_in:
  "unat (of_nat (primes_in a (unat (b::u64))) :: u64) = primes_in a (unat b)"
proof -
  have "primes_in a (unat b) \<le> unat b" by (rule primes_in_le)
  also have "unat b < 2 ^ 64" using unsigned_less [of b] by simp
  finally show ?thesis by (simp add: unat_of_nat)
qed

text \<open>
  C1: for \<open>start_ \<le> stop_\<close> and \<open>COUNT_PRIMES\<close> enabled, \<open>sieve()\<close> returns and
  \<open>getPrimeCount()\<close> is then the number of primes in \<open>[start_, stop_]\<close>, that is
  \<open>\<pi>(stop_) - \<pi>(start_ - 1)\<close>. The table of small primes contributes the primes 2, 3
  and 5 that lie in the interval; the finder (modelled from the spec) contributes the
  primes from 7 on. The same holds for \<open>getPrimeCount(start, stop)\<close> with both bounds
  below the ceiling of \<open>setStart\<close> and \<open>setStop\<close>.
\<close>

theorem sieve_prime_count:
  assumes "this_start s \<le> this_stop s"
  shows
    "(isFlag COUNT_PRIMES s \<longrightarrow>
       unat (this_counts (fold doSmallPrime smallPrimes (reset s)) 0)
         = length (filter (\<lambda>p. unat (this_start s) \<le> p \<and> p \<le> unat (this_stop s)) [2, 3, 5]) \<and>
       (\<exists>s'. sieve (primes_found t) s = Inr s' \<and>
          unat (getPrimeCount s') = primes_in (unat (this_start s)) (unat (this_stop s)) \<and>
          int (unat (getPrimeCount s'))
            = int (primepi (uint (this_stop s))) - int (primepi (uint (this_start s) - 1)))) \<and>
     (unat (this_start s) < 2 ^ 64 - 1 - 10 * (2 ^ 32 - 1) \<and>
      unat (this_stop s) < 2 ^ 64 - 1 - 10 * (2 ^ 32 - 1) \<longrightarrow>
       (\<exists>n s'. getPrimeCount2 (primes_found t) (this_start s) (this_stop s) s0 = Inr (n, s') \<and>
          unat n = primes_in (unat (this_start s)) (unat (this_stop s))))"
proof -
  have main: "\<exists>s'. sieve (primes_found t) u = Inr s' \<and>
          unat (getPrimeCount s') = primes_in (unat (this_start u)) (unat (this_stop u)) \<and>
          int (unat (getPrimeCount s'))
            = int (primepi (uint (this_stop u))) - int (primepi (uint (this_start u) - 1))"
    if f: "isFlag COUNT_PRIMES u" and le: "this_start u \<le> this_stop u" for u
  proof -
    have "isCount 0 u" using f by (simp add: isCount_def)
    from sieve_counts0 [OF this le, of t] obtain s' where
      s': "sieve (primes_found t) u = Inr s'" and
      k: "this_counts s' 0 =
           (if this_start u \<le> 2 \<and> 2 \<le> this_stop u then 1 else 0) +
           (if this_start u \<le> 3 \<and> 3 \<le> this_stop u then 1 else 0) +
           (if this_start u \<le> 5 \<and> 5 \<le> this_stop u then 1 else 0) +
           of_nat (primes_in (max 7 (unat (this_start u))) (unat (this_stop u)))"
      by blast
    have "this_counts s' 0 = of_nat (primes_in (unat (this_start u)) (unat (this_stop u)))"
      unfolding k small_as_nat primes_in_split7 [of "unat (this_start u)"] by simp
    then have n: "unat (getPrimeCount s') = primes_in (unat (this_start u)) (unat (this_stop u))"
      by (simp only: getPrimeCount_def unat_of_nat_primes_in)
    have "int (unat (getPrimeCount s'))
            = int (primepi (uint (this_stop u))) - int (primepi (uint (this_start u) - 1))"
      by (simp only: n primepi_diff [OF le])
    with s' n show ?thesis by blast
  qed
  have table: "unat (this_counts (fold doSmallPrime smallPrimes (reset s)) 0)
         = length (filter (\<lambda>p. unat (this_start s) \<le> p \<and> p \<le> unat (this_stop s)) [2, 3, 5])"
    if f: "isFlag COUNT_PRIMES s"
  proof -
    have c: "isCount 0 (reset s)"
      using f isCount_config [OF config_reset, of 0 s] by (simp add: isCount_def)
    have st: "this_start (reset s) = this_start s" "this_stop (reset s) = this_stop s"
      using config_reset [of s] by (simp_all add: config_def)
    have "this_counts (fold doSmallPrime smallPrimes (reset s)) 0
        = of_nat (length (filter (\<lambda>p. unat (this_start s) \<le> p \<and> p \<le> unat (this_stop s)) [2, 3, 5]))"
      unfolding counts0_smallPrimes st using c by (simp only: small_as_nat counts_reset if_True) simp
    moreover have "length (filter (\<lambda>p. unat (this_start s) \<le> p \<and> p \<le> unat (this_stop s)) [2, 3, 5])
        < 2 ^ 64"
      by (rule le_less_trans [OF small_length_le]) simp
    ultimately show ?thesis by (simp add: unat_of_nat)
  qed
  have conv: "\<exists>n s'. getPrimeCount2 (primes_found t) (this_start s) (this_stop s) s0 = Inr (n, s') \<and>
          unat n = primes_in (unat (this_start s)) (unat (this_stop s))"
    if a: "unat (this_start s) < 2 ^ 64 - 1 - 10 * (2 ^ 32 - 1)"
      and b: "unat (this_stop s) < 2 ^ 64 - 1 - 10 * (2 ^ 32 - 1)"
  proof -
    let ?u = "s0\<lparr>this_start := this_start s, this_stop := this_stop s, this_flags := COUNT_PRIMES\<rparr>"
    have 3: "sieve3 (primes_found t) (this_start s) (this_stop s) COUNT_PRIMES s0
        = sieve (primes_found t) ?u"
      using a b
      by (simp add: sieve3_def and_then_def setStart_def setStop_def setFlags_def ceiling_le_iff
          COUNT_PRIMES_def word_sle_eq)
    have "isFlag COUNT_PRIMES ?u" by (simp add: isFlag_def COUNT_PRIMES_def)
    from main [OF this] assms obtain s' where
      "sieve (primes_found t) ?u = Inr s'"
      "unat (getPrimeCount s') = primes_in (unat (this_start s)) (unat (this_stop s))"
      by auto
    then show ?thesis by (simp add: getPrimeCount2_def 3)
  qed
  show ?thesis using main [OF _ assms] table conv by blast
qed

lemma primes_in_examples:
  "primes_in 0 0 = 0" "primes_in 2 2 = 1" "primes_in 1 1 = 0" "primes_in 0 100 = 25"
  "primes_in (Suc 0) (Suc 0) = 0"
  by code_simp+

lemma unat_eq_numeral_iff: "unat (n::u64) = k \<Longrightarrow> n = of_nat k"
  by auto

theorem sieve_prime_count_witness:
  "(\<exists>s'. getPrimeCount2 (primes_found (\<lambda>k a b. 0)) 0 0 PrimeSieve_new = Inr (0, s')) \<and>
   (\<exists>s'. getPrimeCount2 (primes_found (\<lambda>k a b. 0)) 2 2 PrimeSieve_new = Inr (1, s')) \<and>
   (\<exists>s'. getPrimeCount2 (primes_found (\<lambda>k a b. 0)) 1 1 PrimeSieve_new = Inr (0, s')) \<and>
   (\<exists>s'. sieve (primes_found (\<lambda>k a b. 0)) (PrimeSieve_new\<lparr>this_stop := 100\<rparr>) = Inr s' \<and>
         getPrimeCount s' = 25 \<and> int (primepi 100) - int (primepi (- 1)) = 25)"
proof -
  let ?t = "\<lambda>(k::nat) (a::u64) (b::u64). 0::u64"
  have f: "isFlag COUNT_PRIMES PrimeSieve_new"
    by (simp add: isFlag_def PrimeSieve_new_eq COUNT_PRIMES_def)
  have 0: "\<exists>s'. getPrimeCount2 (primes_found ?t) 0 0 PrimeSieve_new = Inr (0, s')"
    using sieve_prime_count [of PrimeSieve_new ?t PrimeSieve_new]
    by (auto simp: PrimeSieve_new_eq primes_in_examples dest!: unat_eq_numeral_iff)
  have 2: "\<exists>s'. getPrimeCount2 (primes_found ?t) 2 2 PrimeSieve_new = Inr (1, s')"
    using sieve_prime_count [of "PrimeSieve_new\<lparr>this_start := 2, this_stop := 2\<rparr>" ?t PrimeSieve_new]
    by (auto simp: primes_in_examples dest!: unat_eq_numeral_iff)
  have 1: "\<exists>s'. getPrimeCount2 (primes_found ?t) 1 1 PrimeSieve_new = Inr (0, s')"
    using sieve_prime_count [of "PrimeSieve_new\<lparr>this_start := 1, this_stop := 1\<rparr>" ?t PrimeSieve_new]
    by (auto simp: primes_in_examples dest!: unat_eq_numeral_iff)
  have 100: "\<exists>s'. sieve (primes_found ?t) (PrimeSieve_new\<lparr>this_stop := 100\<rparr>) = Inr s' \<and>
         getPrimeCount s' = 25 \<and> int (primepi 100) - int (primepi (- 1)) = 25"
    using sieve_prime_count [of "PrimeSieve_new\<lparr>this_stop := 100\<rparr>" ?t PrimeSieve_new] f
    by (auto simp: PrimeSieve_new_eq isFlag_def primes_in_examples dest!: unat_eq_numeral_iff)
  from 0 1 2 100 show ?thesis by blast
qed

subsection \<open>C7: the batch size of get_interval_size\<close>

lemma get_interval_size_eq:
  "get_interval_size f g n it =
     (g (min (max (if it_count it + 1 < 10 then 4096 else 524288) (f n)) 67108864) n,
      it\<lparr>it_count := it_count it + 1\<rparr>)"
  by (simp add: get_interval_size_def Let_def KILOBYTE_def MEGABYTE_def)

lemma count_regenerations:
  "it_count (regenerations f g ns it) = it_count it + of_nat (length ns)"
  by (induction ns arbitrary: it) (simp_all add: get_interval_size_eq)

lemma skipto_count:
  "skipto max_stop start it = Inr it' \<Longrightarrow> it_count it' = 0"
  by (auto simp: skipto_def Let_def split: if_splits)

lemma call_number_less_10:
  assumes "k < 2 ^ 64 - 1"
  shows "((of_nat k :: u64) + 1 < 10) = (k < 9)"
proof -
  have "(of_nat k :: u64) + 1 = of_nat (Suc k)" by simp
  moreover have "unat (of_nat (Suc k) :: u64) = Suc k"
    by (subst unat_of_nat) (use assms in simp)
  ultimately have "unat ((of_nat k :: u64) + 1) = Suc k" by (simp only:)
  then show ?thesis
    by (simp only: word_less_nat_alt) simp
qed

text \<open>
  C7, as stated, fails at the tenth call: \<open>count_\<close> is incremented before it is compared
  with 10, so the tenth regeneration after \<open>skipto\<close> already uses the base \<open>4 MiB / 8\<close>.
  (Here the square root estimate is 0 and the scaling is the identity, so the value
  returned is the batch size itself.)
\<close>

theorem tenth_regeneration_counterexample:
  "iterator_new UINT64_MAX 1000
     = Inr \<lparr>it_i = 0, it_count = 0, it_start = 1000, it_first = True,
            it_adjust_skipto = False, it_primes = []\<rparr> \<and>
   fst (get_interval_size (\<lambda>n. 0) (\<lambda>primes n. primes) 1000
        (regenerations (\<lambda>n. 0) (\<lambda>primes n. primes) (replicate 9 1000)
           \<lparr>it_i = 0, it_count = 0, it_start = 1000, it_first = True,
            it_adjust_skipto = False, it_primes = []\<rparr>))
     = 524288"
  by (simp add: get_interval_size_eq count_regenerations iterator_new_def skipto_def Let_def
      UINT64_MAX_def)

text \<open>
  C7, amended: after \<open>skipto\<close> (or the constructor), the call number \<open>k\<close> of
  \<open>get_interval_size\<close> uses the base \<open>32 KiB / 8 = 4096\<close> for \<open>k \<le> 9\<close> and
  \<open>4 MiB / 8 = 524288\<close> for \<open>k \<ge> 10\<close> (as long as the 64-bit call counter has not
  wrapped around); the batch size is the base, raised to the square root estimate when
  that is larger, and cut at \<open>512 MiB / 8 = 67108864\<close>. Here \<open>k = length ns + 1\<close>.
\<close>

theorem interval_size_base:
  assumes "skipto max_stop start it0 = Inr it" and "length ns < 2 ^ 64 - 1"
  shows "fst (get_interval_size f g n (regenerations f g ns it))
     = g (min (max (if length ns < 9 then 4096 else 524288) (f n)) 67108864) n"
  using assms
  by (simp add: get_interval_size_eq count_regenerations skipto_count call_number_less_10)

theorem interval_size_base_witness:
  "iterator_new UINT64_MAX 1000
     = Inr \<lparr>it_i = 0, it_count = 0, it_start = 1000, it_first = True,
            it_adjust_skipto = False, it_primes = []\<rparr> \<and>
   fst (get_interval_size (\<lambda>n. 7) (\<lambda>primes n. primes) 1000
        (regenerations (\<lambda>n. 7) (\<lambda>primes n. primes) (replicate 8 1000)
           \<lparr>it_i = 0, it_count = 0, it_start = 1000, it_first = True,
            it_adjust_skipto = False, it_primes = []\<rparr>)) = 4096 \<and>
   fst (get_interval_size (\<lambda>n. 600000) (\<lambda>primes n. primes) 1000
        (regenerations (\<lambda>n. 600000) (\<lambda>primes n. primes) (replicate 20 1000)
           \<lparr>it_i = 0, it_count = 0, it_start = 1000, it_first = True,
            it_adjust_skipto = False, it_primes = []\<rparr>)) = 600000"
proof -
  let ?it = "\<lparr>it_i = 0, it_count = 0, it_start = 1000, it_first = True,
            it_adjust_skipto = False, it_primes = []\<rparr>"
  have s: "skipto UINT64_MAX 1000
       \<lparr>it_i = 0, it_count = 0, it_start = 0, it_first = False, it_adjust_skipto = False,
        it_primes = []\<rparr> = Inr ?it"
    by (simp add: skipto_def Let_def UINT64_MAX_def)
  show ?thesis
    using interval_size_base [OF s, of "replicate 8 1000" "\<lambda>n. 7" "\<lambda>primes n. primes" 1000]
      interval_size_base [OF s, of "replicate 20 1000" "\<lambda>n. 600000" "\<lambda>primes n. primes" 1000]
    by (simp add: iterator_new_def s)
qed

subsection \<open>C8: the digits of the count option\<close>

lemma count_flag_simps:
  "count_flag 1 = COUNT_PRIMES" "count_flag 2 = COUNT_TWINS" "count_flag 3 = COUNT_TRIPLETS"
  "count_flag 4 = COUNT_QUADRUPLETS" "count_flag 5 = COUNT_QUINTUPLETS"
  "count_flag 6 = COUNT_SEXTUPLETS" "count_flag (Suc 0) = COUNT_PRIMES"
  by (simp_all add: count_flag_def flag_defs)

text \<open>
  C8 at \<open>n = 0\<close>: the option value \<open>0\<close> has the digit 0, which is outside \<open>1..6\<close>, yet
  \<open>optionCount\<close> returns without an error and leaves the flags as they were.
\<close>

theorem optionCount_zero:
  "digits10 0 = [0] \<and>
   optionCount (\<lambda>v. if v = ''0'' then Inr 0 else Inl (primesieve_error ''eval''))
      \<lparr>opt_argv = ''-c0'', opt_str = ''-c'', opt_value = ''0''\<rparr>
      \<lparr>co_flags = 0, co_quiet = False\<rparr>
     = Inr \<lparr>co_flags = 0, co_quiet = False\<rparr>"
  by (simp add: optionCount_def getValue_def count_loop.simps digits10.simps)

text \<open>
  For every positive \<open>n\<close> the loop does what the spec says: it fails when a decimal
  digit of \<open>n\<close> is outside \<open>1..6\<close>, and otherwise adds exactly the count flags of the
  digits of \<open>n\<close> to the flags.
\<close>

lemma count_loop_digits:
  "0 < n \<Longrightarrow>
   count_loop argv n flags =
     (if \<forall>d \<in> set (digits10 (nat n)). 1 \<le> d \<and> d \<le> 6
      then Inr (fold (\<lambda>d f. f OR count_flag d) (rev (digits10 (nat n))) flags)
      else Inl (primesieve_error (''invalid option '' @ argv)))"
proof (induction argv n flags rule: count_loop.induct)
  case (1 argv n flags)
  let ?d = "nat (n mod 10)"
  have d: "?d < 10" "int ?d = n mod 10" using 1(7) by simp_all
  have digs: "digits10 (nat n) = (if n < 10 then [?d] else digits10 (nat (n div 10)) @ [?d])"
  proof -
    have lt: "(nat n < 10) = (n < 10)" using 1(7) by linarith
    have "nat n div 10 = nat (n div 10)" "nat n mod 10 = nat (n mod 10)"
      using 1(7) by (simp_all add: nat_div_distrib nat_mod_distrib)
    moreover have "n < 10 \<Longrightarrow> nat n = nat (n mod 10)" using 1(7) by simp
    ultimately show ?thesis
      by (subst digits10.simps) (simp add: lt)
  qed
  have cl: "count_loop argv n flags =
        (if n mod 10 = 1 then count_loop argv (n div 10) (flags OR COUNT_PRIMES)
         else if n mod 10 = 2 then count_loop argv (n div 10) (flags OR COUNT_TWINS)
         else if n mod 10 = 3 then count_loop argv (n div 10) (flags OR COUNT_TRIPLETS)
         else if n mod 10 = 4 then count_loop argv (n div 10) (flags OR COUNT_QUADRUPLETS)
         else if n mod 10 = 5 then count_loop argv (n div 10) (flags OR COUNT_QUINTUPLETS)
         else if n mod 10 = 6 then count_loop argv (n div 10) (flags OR COUNT_SEXTUPLETS)
         else Inl (primesieve_error (''invalid option '' @ argv)))"
    using 1(7) by (subst count_loop.simps) simp
  have cases10: "n mod 10 = 0 \<or> n mod 10 = 1 \<or> n mod 10 = 2 \<or> n mod 10 = 3 \<or> n mod 10 = 4 \<or>
        n mod 10 = 5 \<or> n mod 10 = 6 \<or> n mod 10 = 7 \<or> n mod 10 = 8 \<or> n mod 10 = 9"
    by presburger
  show ?case
  proof (cases "n < 10")
    case True
    then have n10: "n div 10 = 0" "n mod 10 \<noteq> 0" using 1(7) by simp_all
    have stop: "\<And>f. count_loop argv 0 f = Inr f" by (simp add: count_loop.simps)
    from cases10 n10(2) show ?thesis
      by (elim disjE) (simp_all add: cl digs True n10(1) stop count_flag_simps)
  next
    case False
    then have pos: "0 < n div 10" by simp
    from cases10 show ?thesis
      using False pos 1(7) 1(1-6)
      by (elim disjE) (simp_all add: cl digs count_flag_simps)
  qed
qed

lemma optionCount_positive:
  assumes "eval (if opt_value opt = [] then ''1'' else opt_value opt) = Inr n" "0 < n"
  shows "optionCount eval opt opts =
     (if \<forall>d \<in> set (digits10 (nat n)). 1 \<le> d \<and> d \<le> 6
      then Inr (opts\<lparr>co_flags := fold (\<lambda>d f. f OR count_flag d) (rev (digits10 (nat n))) (co_flags opts)\<rparr>)
      else Inl (primesieve_error (''invalid option '' @ opt_argv opt)))"
proof (cases "opt_value opt = []")
  case True
  with assms have "eval ''1'' = Inr n" by simp
  with True assms(2) show ?thesis
    by (simp add: optionCount_def getValue_def count_loop_digits Let_def)
next
  case False
  with assms have "eval (opt_value opt) = Inr n" by simp
  with False assms(2) show ?thesis
    by (simp add: optionCount_def getValue_def count_loop_digits Let_def)
qed

subsection \<open>C9: the integer square root\<close>

text \<open>Arithmetic of one Newton step on the natural numbers.\<close>

lemma four_mult_le_square_sum: "4 * a * b \<le> (a + b) ^ 2" for a b :: nat
proof -
  have "0 \<le> (int a - int b) ^ 2" by simp
  also have "(int a - int b) ^ 2 = (int a + int b) ^ 2 - 4 * int a * int b"
    by (simp add: power2_eq_square algebra_simps)
  finally have "4 * int a * int b \<le> (int a + int b) ^ 2" by simp
  then have "int (4 * a * b) \<le> int ((a + b) ^ 2)" by simp
  then show ?thesis by (simp only: of_nat_le_iff)
qed

lemma newton_step_above:
  fixes g x :: nat
  assumes "0 < g"
  shows "x < ((g + x div g) div 2 + 1) ^ 2"
proof -
  let ?q = "x div g"
  let ?g' = "(g + ?q) div 2"
  have "x < g * (?q + 1)"
    using assms by (metis Suc_eq_plus1 dividend_less_times_div mult.commute mult_Suc_right add.commute)
  then have "4 * x < 4 * g * (?q + 1)" by simp
  also have "\<dots> \<le> (g + (?q + 1)) ^ 2" by (rule four_mult_le_square_sum)
  also have "\<dots> \<le> (2 * (?g' + 1)) ^ 2"
  proof (rule power_mono)
    have "\<And>q::nat. g + (q + 1) \<le> 2 * ((g + q) div 2 + 1)" by arith
    then show "g + (?q + 1) \<le> 2 * (?g' + 1)" .
  qed simp
  also have "\<dots> = 4 * (?g' + 1) ^ 2" by (simp add: power2_eq_square)
  finally show ?thesis by simp
qed

lemma newton_exit_below:
  fixes g x :: nat
  assumes "0 < g" "g \<le> (g + x div g) div 2"
  shows "g ^ 2 \<le> x"
proof -
  have "\<And>q::nat. g \<le> (g + q) div 2 \<Longrightarrow> g \<le> q" by arith
  from this [OF assms(2)] have "g \<le> x div g" .
  then have "g * g \<le> g * (x div g)" by simp
  also have "\<dots> \<le> x" by simp
  finally show ?thesis by (simp add: power2_eq_square)
qed

lemma newton_quotient_bound:
  fixes g x :: nat
  assumes "0 < g" "x < (g + 1) ^ 2"
  shows "x div g \<le> g + 2"
proof -
  have "(g + 1) ^ 2 = g * (g + 2) + 1" by (simp add: power2_eq_square)
  with assms(2) have "x \<le> g * (g + 2)" by simp
  then have "x div g \<le> (g * (g + 2)) div g" by (rule div_le_mono)
  with assms(1) show ?thesis by simp
qed

text \<open>Powers of two and small numbers as machine words.\<close>

lemma unat_pow2: "n < LENGTH('a) \<Longrightarrow> unat (2 ^ n :: 'a::len word) = 2 ^ n"
proof -
  assume n: "n < LENGTH('a)"
  have "(2 ^ n :: 'a word) = of_nat (2 ^ n)" by simp
  then have "unat (2 ^ n :: 'a word) = 2 ^ n mod 2 ^ LENGTH('a)"
    by (simp only: unat_of_nat)
  moreover have "(2::nat) ^ n < 2 ^ LENGTH('a)"
    using n by (intro power_strict_increasing) simp_all
  ultimately show ?thesis by simp
qed

lemma unat_small: "r < 2 ^ LENGTH('a) \<Longrightarrow> unat (of_nat r :: 'a::len word) = r"
  by (simp add: unat_of_nat)

lemma unat_small_length: "r \<le> LENGTH('a) \<Longrightarrow> unat (of_nat r :: 'a::len word) = r"
proof (rule unat_small)
  assume "r \<le> LENGTH('a)"
  also have "LENGTH('a) < 2 ^ LENGTH('a)" by (rule less_exp)
  finally show "r < 2 ^ LENGTH('a)" .
qed

lemma unat_two: "2 \<le> LENGTH('a) \<Longrightarrow> unat (2 :: 'a::len word) = 2"
  using unat_pow2 [of 1, where 'a = 'a] by simp

lemma of_nat_half:
  assumes "2 \<le> LENGTH('a)" "r \<le> LENGTH('a)"
  shows "(of_nat r :: 'a::len word) div 2 = of_nat (r div 2)"
proof -
  have "unat ((of_nat r :: 'a word) div 2) = r div 2"
    by (simp only: unat_div unat_two [OF assms(1)] unat_small_length [OF assms(2)])
  moreover have "unat (of_nat (r div 2) :: 'a word) = r div 2"
    using assms(2) by (intro unat_small_length) simp
  ultimately show ?thesis by (simp only: word_unat_eq_iff)
qed

lemma two_guesses_fit:
  fixes h :: nat
  assumes "2 \<le> h"
  shows "2 ^ h + (2 ^ h + 2) < (2::nat) ^ (2 * h)"
proof -
  have "(2::nat) ^ 2 \<le> 2 ^ h" using assms by (intro power_increasing) simp_all
  then have 4: "(4::nat) \<le> 2 ^ h" by simp
  then have "2 ^ h + (2 ^ h + 2) < 4 * (2::nat) ^ h" by simp
  also have "\<dots> \<le> 2 ^ h * 2 ^ h" using 4 by simp
  also have "\<dots> = 2 ^ (2 * h)" by (simp add: power_add [symmetric] mult_2)
  finally show ?thesis .
qed

text \<open>The Newton loop, from a guess that is not below the square root.\<close>

lemma isqrt_loop_correct:
  fixes x g0 g1 :: "'a::len word"
  shows "2 \<le> h \<Longrightarrow> 2 * h \<le> LENGTH('a) \<Longrightarrow>
    2 \<le> unat x \<Longrightarrow> 0 < unat g0 \<Longrightarrow> unat g0 \<le> 2 ^ h \<Longrightarrow>
    unat x < (unat g0 + 1) ^ 2 \<Longrightarrow>
    unat g1 = (unat g0 + unat x div unat g0) div 2 \<Longrightarrow>
    \<exists>r. isqrt_loop x g0 g1 = Some r \<and> (unat r) ^ 2 \<le> unat x \<and> unat x < (unat r + 1) ^ 2"
proof (induction x g0 g1 rule: isqrt_loop.induct)
  case (1 x g0 g1)
  note h = "1.prems"(1,2)
  note prems = "1.prems"(3-7)
  show ?case
  proof (cases "g1 < g0")
    case False
    then have "unat g0 \<le> (unat g0 + unat x div unat g0) div 2"
      using prems(5) by (simp add: word_less_nat_alt)
    from newton_exit_below [OF prems(2) this] prems(4) False
    show ?thesis by (subst isqrt_loop.simps) simp
  next
    case True
    have above: "unat x < (unat g1 + 1) ^ 2"
      unfolding prems(5) by (rule newton_step_above [OF prems(2)])
    have pos: "0 < unat g1"
    proof (rule ccontr)
      assume "\<not> 0 < unat g1"
      then have "unat g1 = 0" by simp
      with above have "unat x < 1" by simp
      with prems(1) show False by simp
    qed
    then have nz: "g1 \<noteq> 0" by (simp add: unat_gt_0)
    have lt: "unat g1 < unat g0" using True by (simp add: word_less_nat_alt)
    then have small: "unat g1 \<le> 2 ^ h" using prems(3) by simp
    have q: "unat x div unat g1 \<le> unat g1 + 2"
      by (rule newton_quotient_bound [OF pos above])
    have "unat g1 + unat (x div g1) \<le> 2 ^ h + (2 ^ h + 2)"
      using q small by (simp only: unat_div)
    also have "\<dots> < 2 ^ (2 * h)" by (rule two_guesses_fit [OF h(1)])
    also have "\<dots> \<le> 2 ^ LENGTH('a)" using h(2) by (intro power_increasing) simp_all
    finally have "unat g1 + unat (x div g1) < 2 ^ LENGTH('a)" .
    then have "unat (g1 + x div g1) = unat g1 + unat (x div g1)"
      by (simp only: unat_add_lem)
    then have sum: "unat (g1 + x div g1) = unat g1 + unat x div unat g1"
      by (simp only: unat_div)
    have "unat (drop_bit 1 (g1 + x div g1)) = drop_bit 1 (unat (g1 + x div g1))"
      by (simp only: unat_drop_bit_eq)
    also have "\<dots> = unat (g1 + x div g1) div 2"
      by (simp only: drop_bit_eq_div power_one_right)
    finally have next_g:
      "unat (drop_bit 1 (g1 + x div g1)) = (unat g1 + unat x div unat g1) div 2"
      by (simp only: sum)
    from "1.IH" [OF True nz h prems(1) pos small above next_g]
    show ?thesis using True nz by (subst isqrt_loop.simps) simp
  qed
qed

text \<open>The binary search of \<open>ilog2\<close>, started at a power of two.\<close>

lemma ilog2_loop_correct:
  fixes x acc :: "'a::len word"
  shows "2 * 2 ^ k \<le> LENGTH('a) \<Longrightarrow> 0 < unat x \<Longrightarrow> unat x < 2 ^ (2 * 2 ^ k) \<Longrightarrow>
    \<exists>r. ilog2_loop (2 ^ k) x acc = acc + of_nat r \<and> r < 2 * 2 ^ k \<and>
        2 ^ r \<le> unat x \<and> unat x < 2 ^ Suc r"
proof (induction k arbitrary: x acc)
  case 0
  from "0.prems"(1) have len: "2 \<le> LENGTH('a)" by simp
  have one: "unat (1 :: 'a word) = 1" by simp
  have "unat ((1 :: 'a word) div 2) = 0"
    by (simp only: unat_div one unat_two [OF len])
  then have half: "(1 :: 'a word) div 2 = 0" by (simp only: unat_eq_0)
  have two: "push_bit (unat (1 :: 'a word)) (1 :: 'a word) = 2" by simp
  have stop: "\<And>y a :: 'a word. ilog2_loop 0 y a = a"
    by (subst ilog2_loop.simps) simp
  have step: "ilog2_loop 1 x acc = (if 2 \<le> x then acc + 1 else acc)"
    by (subst ilog2_loop.simps) (simp only: half two stop one_neq_zero not_False_eq_True if_True)
  have cmp: "(2 \<le> x) = (2 \<le> unat x)"
    by (simp only: word_le_nat_alt unat_two [OF len])
  from "0.prems" have x4: "unat x < 4" by simp
  show ?case
  proof (cases "2 \<le> unat x")
    case True
    with x4 show ?thesis
      by (intro exI [of _ 1]) (simp add: step cmp)
  next
    case False
    with "0.prems"(2) show ?thesis
      by (intro exI [of _ 0]) (simp add: step cmp)
  qed
next
  case (Suc k)
  define n :: nat where "n = 2 ^ Suc k"
  define i :: "'a word" where "i = 2 ^ Suc k"
  have n2: "n = 2 * 2 ^ k" by (simp add: n_def)
  have npos: "0 < n" by (simp add: n_def)
  have nlen: "2 * n \<le> LENGTH('a)" using Suc.prems(1) by (simp only: n_def)
  then have n64: "n < LENGTH('a)" using npos by simp
  have len: "2 * 2 ^ k \<le> LENGTH('a)" using n64 by (simp only: n2)
  have "Suc k < 2 ^ Suc k" by (rule less_exp)
  then have k1: "Suc k < LENGTH('a)" using n64 by (simp only: n_def)
  then have k0: "k < LENGTH('a)" by simp
  have ui: "unat i = n"
    unfolding i_def n_def by (rule unat_pow2 [OF k1])
  have inz: "i \<noteq> 0" using ui npos by (simp flip: unat_gt_0)
  have u2: "unat (2 :: 'a word) = 2"
    using n64 npos by (intro unat_two) simp
  have "unat (i div 2) = unat ((2::'a word) ^ k)"
    by (simp only: unat_div ui u2 unat_pow2 [OF k0]) (simp add: n2)
  then have idiv: "i div 2 = 2 ^ k" by (simp only: word_unat_eq_iff)
  have pb: "unat (push_bit n (1::'a word)) = 2 ^ n"
    using unat_pow2 [OF n64] by simp
  have cmp: "(push_bit n (1::'a word) \<le> x) = (2 ^ n \<le> unat x)"
    by (simp only: word_le_nat_alt pb)
  have i_nat: "i = of_nat n" by (simp add: i_def n_def)
  have unfold: "ilog2_loop i x acc =
      (if 2 ^ n \<le> unat x then ilog2_loop (2 ^ k) (drop_bit n x) (acc + i)
       else ilog2_loop (2 ^ k) x acc)"
    by (subst ilog2_loop.simps) (simp only: inz ui idiv cmp not_False_eq_True if_True)
  have xb: "unat x < 2 ^ n * 2 ^ n"
    using Suc.prems(3) by (simp add: n_def power_add [symmetric] mult_2)
  show ?case
  proof (cases "2 ^ n \<le> unat x")
    case True
    let ?x' = "drop_bit n x"
    have ux': "unat ?x' = unat x div 2 ^ n"
      by (simp only: unat_drop_bit_eq) (simp only: drop_bit_eq_div)
    have pos': "0 < unat ?x'"
      unfolding ux' using True by (simp add: div_greater_zero_iff)
    have lt': "unat ?x' < 2 ^ (2 * 2 ^ k)"
      unfolding ux' n2 [symmetric] using xb by (simp add: less_mult_imp_div_less)
    from Suc.IH [OF len pos' lt', of "acc + i"] obtain r' where
      r': "ilog2_loop (2 ^ k) ?x' (acc + i) = acc + i + of_nat r'" "r' < n"
        "2 ^ r' \<le> unat ?x'" "unat ?x' < 2 ^ Suc r'"
      unfolding n2 [symmetric] by blast
    have "ilog2_loop i x acc = ilog2_loop (2 ^ k) ?x' (acc + i)"
      using True by (simp only: unfold if_True)
    also have "\<dots> = acc + i + of_nat r'" by (rule r'(1))
    also have "\<dots> = acc + of_nat (n + r')" by (simp add: i_nat)
    finally have 1: "ilog2_loop i x acc = acc + of_nat (n + r')" .
    have 2: "n + r' < 2 * 2 ^ Suc k" using r'(2) by (simp add: n_def)
    have "(2::nat) ^ (n + r') = 2 ^ n * 2 ^ r'" by (simp add: power_add)
    also have "\<dots> \<le> 2 ^ n * (unat x div 2 ^ n)"
      using r'(3) by (simp add: ux')
    also have "\<dots> \<le> unat x" by simp
    finally have 3: "2 ^ (n + r') \<le> unat x" .
    have "unat x < 2 ^ n * (unat x div 2 ^ n + 1)"
      using dividend_less_times_div [of "2 ^ n" "unat x"] by (simp add: mult.commute)
    also have "\<dots> \<le> 2 ^ n * 2 ^ Suc r'"
    proof (rule mult_le_mono2)
      from r'(4) show "unat x div 2 ^ n + 1 \<le> 2 ^ Suc r'"
        unfolding ux' by linarith
    qed
    also have "\<dots> = 2 ^ Suc (n + r')" by (simp add: power_add)
    finally have 4: "unat x < 2 ^ Suc (n + r')" .
    from 1 2 3 4 show ?thesis unfolding i_def by blast
  next
    case False
    then have lt: "unat x < 2 ^ (2 * 2 ^ k)" by (simp add: n2)
    from Suc.IH [OF len Suc.prems(2) lt, of acc] obtain r where
      r: "ilog2_loop (2 ^ k) x acc = acc + of_nat r" "r < n"
        "2 ^ r \<le> unat x" "unat x < 2 ^ Suc r"
      unfolding n2 [symmetric] by blast
    have "ilog2_loop i x acc = ilog2_loop (2 ^ k) x acc"
      using False by (simp only: unfold if_False)
    also have "\<dots> = acc + of_nat r" by (rule r(1))
    finally have 1: "ilog2_loop i x acc = acc + of_nat r" .
    have 2: "r < 2 * 2 ^ Suc k" using r(2) by (simp add: n_def)
    from 1 2 r(3,4) show ?thesis unfolding i_def by blast
  qed
qed

text \<open>\<open>ilog2\<close> on a word whose width is a power of two, at least 2.\<close>

lemma ilog2_correct:
  fixes x :: "'a::len word"
  assumes len: "LENGTH('a) = 2 * 2 ^ k" and pos: "0 < unat x"
  shows "\<exists>r. ilog2 x = of_nat r \<and> r < LENGTH('a) \<and> 2 ^ r \<le> unat x \<and> unat x < 2 ^ Suc r"
proof -
  have b: "unat x < 2 ^ (2 * 2 ^ k)"
    using unsigned_less [of x] by (simp only: len)
  have l2: "2 \<le> LENGTH('a)" by (simp add: len)
  have "numberOfBits x div 2 = of_nat (LENGTH('a) div 2)"
    unfolding numberOfBits_def by (rule of_nat_half [OF l2]) simp
  also have "\<dots> = 2 ^ k" by (simp add: len)
  finally have i: "ilog2 x = ilog2_loop (2 ^ k) x 0"
    by (simp only: ilog2_def Let_def)
  have le: "2 * 2 ^ k \<le> LENGTH('a)" by (simp only: len)
  from ilog2_loop_correct [OF le pos b, of 0] show ?thesis
    unfolding i len by auto
qed

text \<open>The first guess \<open>2\<^sup>s\<close> of \<open>isqrt\<close> is not below the square root.\<close>

lemma isqrt_first_guess:
  fixes x :: "'a::len word"
  assumes len: "LENGTH('a) = 2 * 2 ^ k" and x2: "2 \<le> unat x"
  shows "\<exists>s. numberOfBits x div 2 - (numberOfBits x - 1) div 2 + ilog2 (x - 1) div 2 = of_nat s \<and>
            s \<le> 2 ^ k \<and> 0 < s \<and> unat x \<le> (2 ^ s) ^ 2"
proof -
  define m :: nat where "m = 2 ^ k"
  have W: "LENGTH('a) = 2 * m" by (simp only: len m_def)
  have mpos: "0 < m" by (simp add: m_def)
  have l2: "2 \<le> LENGTH('a)" using mpos by (simp add: W)
  have x1: "unat (x - 1) = unat x - 1"
    using x2 by (simp add: unat_minus_one unat_gt_0 [symmetric] del: unat_gt_0)
  then have "0 < unat (x - 1)" using x2 by simp
  from ilog2_correct [OF len this] obtain L where
    L: "ilog2 (x - 1) = of_nat L" "L < LENGTH('a)" "2 ^ L \<le> unat (x - 1)"
      "unat (x - 1) < 2 ^ Suc L"
    by blast
  have d: "(of_nat L div 2 :: 'a word) = of_nat (L div 2)"
    using L(2) by (intro of_nat_half [OF l2]) simp
  have a: "numberOfBits x div 2 = of_nat m"
    unfolding numberOfBits_def using of_nat_half [OF l2, of "LENGTH('a)"] by (simp add: W)
  have "numberOfBits x - 1 = of_nat (LENGTH('a) - 1)"
    unfolding numberOfBits_def using l2 by (simp add: of_nat_diff)
  also have "\<dots> div 2 = of_nat ((LENGTH('a) - 1) div 2)"
    by (rule of_nat_half [OF l2]) simp
  also have "(LENGTH('a) - 1) div 2 = m - 1"
    unfolding W using mpos by arith
  finally have b: "(numberOfBits x - 1) div 2 = of_nat (m - 1)" .
  have "(of_nat m :: 'a word) = of_nat (Suc (m - 1))" using mpos by simp
  then have c: "(of_nat m :: 'a word) - of_nat (m - 1) = 1"
    by (simp only: of_nat_Suc) simp
  have s: "numberOfBits x div 2 - (numberOfBits x - 1) div 2 + ilog2 (x - 1) div 2
      = of_nat (1 + L div 2)"
    by (simp only: a b c L(1) d) simp
  have "unat x \<le> 2 ^ Suc L" using L(4) x1 by simp
  also have "(2::nat) ^ Suc L \<le> 2 ^ (2 * (1 + L div 2))"
  proof (rule power_increasing)
    show "Suc L \<le> 2 * (1 + L div 2)" by arith
    show "(1::nat) \<le> 2" by simp
  qed
  also have "\<dots> = (2 ^ (1 + L div 2)) ^ 2"
    by (simp only: power_mult [symmetric] mult.commute)
  finally have "unat x \<le> (2 ^ (1 + L div 2)) ^ 2" .
  moreover have "1 + L div 2 \<le> m" using L(2) unfolding W by arith
  ultimately show ?thesis using s unfolding m_def by (intro exI [of _ "1 + L div 2"]) simp
qed

text \<open>
  C9: at every unsigned type whose width is a power of two from 4 bits on (so at
  \<open>uint32_t\<close> with \<open>k = 4\<close> and at \<open>uint64_t\<close> with \<open>k = 5\<close>), \<open>isqrt x\<close> returns for
  every \<open>x\<close> (the loop ends, it never divides by zero and no sum wraps around), and
  the value \<open>r\<close> it returns is the integer square root: \<open>r\<^sup>2 \<le> x < (r + 1)\<^sup>2\<close>.
\<close>

theorem isqrt_correct:
  fixes x :: "'a::len word"
  assumes len: "LENGTH('a) = 2 * 2 ^ k" and k: "0 < k"
  shows "\<exists>r. isqrt x = Some r \<and> (unat r) ^ 2 \<le> unat x \<and> unat x < (unat r + 1) ^ 2"
proof (cases "x \<le> 1")
  case True
  then have "unat x \<le> 1" by (simp add: word_le_nat_alt)
  then have "unat x = 0 \<or> unat x = 1" by arith
  then have "(unat x) ^ 2 \<le> unat x \<and> unat x < (unat x + 1) ^ 2"
    by (auto simp add: power2_eq_square)
  with True show ?thesis by (simp add: isqrt_def)
next
  case False
  then have x2: "2 \<le> unat x" by (simp add: word_le_nat_alt)
  define h :: nat where "h = 2 ^ k"
  have "(2::nat) ^ 1 \<le> 2 ^ k" using k by (intro power_increasing) simp_all
  then have h2: "2 \<le> h" by (simp add: h_def)
  have W: "2 * h \<le> LENGTH('a)" by (simp only: len h_def)
  from isqrt_first_guess [OF len x2] obtain s where
    s: "numberOfBits x div 2 - (numberOfBits x - 1) div 2 + ilog2 (x - 1) div 2 = of_nat s"
      "s \<le> h" "0 < s" "unat x \<le> (2 ^ s) ^ 2"
    unfolding h_def by blast
  define g0 :: "'a word" where "g0 = push_bit s 1"
  define g1 :: "'a word" where "g1 = drop_bit 1 (g0 + drop_bit s x)"
  have slen: "s < LENGTH('a)" using s(2) h2 W by simp
  have us: "unat (of_nat s :: 'a word) = s"
    using slen by (intro unat_small_length) simp
  have run: "isqrt x = isqrt_loop x g0 g1"
    using False by (simp add: isqrt_def Let_def s(1) us g0_def g1_def)
  have ug0: "unat g0 = 2 ^ s"
    unfolding g0_def using unat_pow2 [OF slen] by simp
  have pos: "0 < unat g0" by (simp add: ug0)
  have "(2::nat) ^ s \<le> 2 ^ h"
    using s(2) by (intro power_increasing) simp_all
  then have small: "unat g0 \<le> 2 ^ h" by (simp only: ug0)
  have "(unat g0) ^ 2 < (unat g0 + 1) ^ 2"
    by (rule power_strict_mono) simp_all
  with s(4) have above: "unat x < (unat g0 + 1) ^ 2" by (simp only: ug0)
  have shift: "unat (drop_bit s x) = unat x div unat g0"
    by (simp only: unat_drop_bit_eq ug0) (simp only: drop_bit_eq_div)
  have q: "unat x div unat g0 \<le> unat g0 + 2"
    by (rule newton_quotient_bound [OF pos above])
  have "unat g0 + unat (drop_bit s x) \<le> 2 ^ h + (2 ^ h + 2)"
    using q small by (simp only: shift)
  also have "\<dots> < 2 ^ (2 * h)" by (rule two_guesses_fit [OF h2])
  also have "\<dots> \<le> 2 ^ LENGTH('a)" using W by (intro power_increasing) simp_all
  finally have "unat g0 + unat (drop_bit s x) < 2 ^ LENGTH('a)" .
  then have "unat (g0 + drop_bit s x) = unat g0 + unat (drop_bit s x)"
    by (simp only: unat_add_lem)
  then have sum: "unat (g0 + drop_bit s x) = unat g0 + unat x div unat g0"
    by (simp only: shift)
  have "unat g1 = drop_bit 1 (unat (g0 + drop_bit s x))"
    unfolding g1_def by (simp only: unat_drop_bit_eq)
  also have "\<dots> = unat (g0 + drop_bit s x) div 2"
    by (simp only: drop_bit_eq_div power_one_right)
  finally have ug1: "unat g1 = (unat g0 + unat x div unat g0) div 2"
    by (simp only: sum)
  from isqrt_loop_correct [OF h2 W x2 pos small above ug1] show ?thesis
    by (simp only: run)
qed

lemma isqrt_examples:
  "isqrt (0 :: u64) = Some 0" "isqrt (1 :: u64) = Some 1" "isqrt (17 :: u64) = Some 4"
  "isqrt (0xFFFFFFFFFFFFFFFF :: u64) = Some 0xFFFFFFFF"
  "isqrt (0xFFFFFFFF :: u32) = Some 0xFFFF"
  by (simp_all add: isqrt_def ilog2_def numberOfBits_def ilog2_loop.simps isqrt_loop.simps Let_def
      word_le_nat_alt word_less_nat_alt)

theorem isqrt_correct_witness:
  "LENGTH(64) = 2 * 2 ^ 5 \<and> (0::nat) < 5 \<and>
   (\<exists>r. isqrt (17 :: u64) = Some r \<and> (unat r) ^ 2 \<le> 17 \<and> 17 < (unat r + 1) ^ 2) \<and>
   isqrt (0 :: u64) = Some 0 \<and> isqrt (1 :: u64) = Some 1 \<and>
   isqrt (0xFFFFFFFFFFFFFFFF :: u64) = Some 0xFFFFFFFF \<and>
   isqrt (0xFFFFFFFF :: u32) = Some 0xFFFF"
  using isqrt_correct [where 'a = 64 and k = 5 and x = 17] isqrt_examples by simp

text \<open>
  The bound on the width is needed: at a width of 2 bits the sum \<open>g0 + x / g0\<close> wraps
  around and the loop divides by zero.
\<close>

lemma isqrt_two_bits: "isqrt (3 :: 2 word) = None"
  by (simp add: isqrt_def ilog2_def numberOfBits_def ilog2_loop.simps isqrt_loop.simps Let_def
      word_le_nat_alt word_less_nat_alt)

end
